theory Spec2Isabelle
  imports Main "HOL-Library.Monad_Syntax"
begin

section \<open>The connectivity engine of \<^verbatim>\<open>src/graph.cpp\<close>\<close>

text \<open>
  The theory embeds the class \<^verbatim>\<open>Graph\<close>: the disjoint-set arrays, the Boruvka
  driver (\<^verbatim>\<open>sample_supernodes\<close>, \<^verbatim>\<open>supernodes_to_merge\<close>, \<^verbatim>\<open>merge_supernodes\<close>,
  \<^verbatim>\<open>boruvka_emulation\<close>), the snapshot and its restoration, \<^verbatim>\<open>connected_components\<close>,
  \<^verbatim>\<open>batch_update\<close>, \<^verbatim>\<open>write_binary\<close> and the constructor that reads a binary file.

  Conventions.
  \<^item> \<^verbatim>\<open>node_id_t\<close> and \<^verbatim>\<open>vec_t\<close> are \<open>nat\<close>.  The only arithmetic on them is
    \<^verbatim>\<open>size[a] += size[b]\<close>, on sizes that start at 1 in every query and are added once
    each, so that their sum never exceeds \<^verbatim>\<open>num_nodes\<close>.
  \<^item> An exception is a value of \<open>exn\<close>; a function that can throw returns it on the left
    of a sum, or beside the state it leaves behind.
  \<^item> A result \<open>None\<close> of an option-valued function means that the call has no result:
    the recursion or the loop does not end, or an array is read or written outside its
    bounds (undefined in the source).
  \<^item> The two \<^verbatim>\<open>omp parallel for\<close> loops run their iterations on distinct indices; they
    are folded in the order of the list they range over.
  \<^item> \<^verbatim>\<open>Supernode\<close>, the guttering system and the worker threads are not part of
    \<^verbatim>\<open>graph.cpp\<close>.  The operations of \<^verbatim>\<open>Supernode\<close> that the engine calls are the fields
    of a record \<open>Supernode_ops\<close> that every function takes as its first argument; of the
    workers the model keeps the pause flag.  Failures to open a file and failures of
    allocation are not modelled.
\<close>

subsection \<open>Exceptions, samples, the interface of a supernode\<close>

datatype exn =
    MultipleGraphsException
  | UpdateLockedException
  | OutOfQueriesException
  | NoGoodBucketException

datatype SampleSketchRet = GOOD | ZERO | FAIL

type_synonym node_id_t = nat
type_synonym vec_t = nat
type_synonym Edge = "node_id_t \<times> node_id_t"

text \<open>
  The calls into \<^verbatim>\<open>Supernode\<close>, in the order of their first use in \<^verbatim>\<open>graph.cpp\<close>.
  \<open>sample\<close> and \<open>merge\<close> stand inside a \<^verbatim>\<open>try\<close> block in the source: they return what
  they throw or compute together with the supernode as the call leaves it.  The two
  serialisation functions work on a stream of \<open>'b\<close>: \<open>Supernode_write_binary\<close> gives the
  record to append, \<open>makeSupernode_in\<close> (\<^verbatim>\<open>makeSupernode(num_nodes, seed, binary_in)\<close>)
  consumes a record from the front and returns the rest.
\<close>

record ('s, 'b) Supernode_ops =
  makeSupernode :: "node_id_t \<Rightarrow> nat \<Rightarrow> 's"
  makeSupernode_in :: "node_id_t \<Rightarrow> nat \<Rightarrow> 'b list \<Rightarrow> 's \<times> 'b list"
  Supernode_write_binary :: "'s \<Rightarrow> 'b list"
  sn_n :: "'s \<Rightarrow> node_id_t"
  sn_seed :: "'s \<Rightarrow> nat"
  pairing_fn :: "node_id_t \<Rightarrow> node_id_t \<Rightarrow> vec_t"
  delta_supernode :: "node_id_t \<Rightarrow> nat \<Rightarrow> vec_t list \<Rightarrow> 's"
  apply_delta_update :: "'s \<Rightarrow> 's \<Rightarrow> 's"
  sample :: "'s \<Rightarrow> (exn + Edge \<times> SampleSketchRet) \<times> 's"
  merge :: "'s \<Rightarrow> 's \<Rightarrow> exn option \<times> 's"
  reset_query_state :: "'s \<Rightarrow> 's"

subsection \<open>The state of a graph\<close>

text \<open>
  The members of \<^verbatim>\<open>Graph\<close> that \<^verbatim>\<open>graph.cpp\<close> reads or writes.  The array \<^verbatim>\<open>size\<close> is
  the field \<open>size_arr\<close>; \<open>backup_data\<close> is the content of the file \<^verbatim>\<open>backup_file\<close>;
  \<open>workers_paused\<close> is the state that \<^verbatim>\<open>GraphWorker::pause_workers\<close> and
  \<^verbatim>\<open>unpause_workers\<close> switch.  The set \<^verbatim>\<open>representatives\<close> is filled by the constructors
  and never read; it is left out.
\<close>

record ('s, 'b) Graph =
  num_nodes :: node_id_t
  seed :: nat
  supernodes :: "'s list"
  parent :: "node_id_t list"
  size_arr :: "node_id_t list"
  modified :: bool
  update_locked :: bool
  copy_in_mem :: bool
  backup_data :: "'b list"
  workers_paused :: bool
  num_updates :: nat

subsection \<open>\<^verbatim>\<open>Graph::get_parent\<close>\<close>

text \<open>
  \<^verbatim>\<open>if (parent[node] == node) return node;
  return parent[node] = get_parent(parent[node]);\<close>

  The function returns the root together with the compressed array.
\<close>

partial_function (option) get_parent ::
  "node_id_t list \<Rightarrow> node_id_t \<Rightarrow> (node_id_t \<times> node_id_t list) option" where
  "get_parent p node =
     (if \<not> node < length p then None
      else if p ! node = node then Some (node, p)
      else do {
        (r, p') \<leftarrow> get_parent p (p ! node);
        Some (r, p'[node := r])
      })"

subsection \<open>\<^verbatim>\<open>Graph::generate_delta_node\<close> and \<^verbatim>\<open>Graph::batch_update\<close>\<close>

definition generate_delta_node ::
  "('s, 'b) Supernode_ops \<Rightarrow> node_id_t \<Rightarrow> nat \<Rightarrow> node_id_t \<Rightarrow> node_id_t list \<Rightarrow> 's" where
  "generate_delta_node ops node_n node_seed src edges =
     delta_supernode ops node_n node_seed
       (map (\<lambda>edge. if src < edge then pairing_fn ops src edge else pairing_fn ops edge src)
          edges)"

definition batch_update ::
  "('s, 'b) Supernode_ops \<Rightarrow> node_id_t \<Rightarrow> node_id_t list \<Rightarrow> ('s, 'b) Graph
     \<Rightarrow> (exn + ('s, 'b) Graph) option" where
  "batch_update ops src edges g =
     (if update_locked g then Some (Inl UpdateLockedException)
      else if \<not> src < length (supernodes g) then None
      else
        let s = supernodes g ! src;
            delta_loc = generate_delta_node ops (sn_n ops s) (sn_seed ops s) src edges
        in Some (Inr (g\<lparr>num_updates := num_updates g + length edges,
                          supernodes := (supernodes g)[src := apply_delta_update ops s delta_loc]\<rparr>)))"

subsection \<open>\<^verbatim>\<open>Graph::sample_supernodes\<close>\<close>

text \<open>
  \<^verbatim>\<open>query\<close> is an array that \<^verbatim>\<open>boruvka_emulation\<close> declares without initialising it:
  an entry is \<open>None\<close> until a sample is stored in it.  An iteration whose sample throws
  records the exception in \<^verbatim>\<open>err\<close>; the loop goes on, and the exception recorded last
  is rethrown after it.
\<close>

type_synonym query_t = "(Edge \<times> SampleSketchRet) option list"

definition sample_step ::
  "('s, 'b) Supernode_ops \<Rightarrow> node_id_t \<Rightarrow> query_t \<times> 's list \<times> exn option
     \<Rightarrow> query_t \<times> 's list \<times> exn option" where
  "sample_step ops r st =
     (case st of (query, sns, err) \<Rightarrow>
        (case sample ops (sns ! r) of
           (Inr q, s) \<Rightarrow> (query[r := Some q], sns[r := s], err)
         | (Inl e, s) \<Rightarrow> (query, sns[r := s], Some e)))"

definition sample_supernodes ::
  "('s, 'b) Supernode_ops \<Rightarrow> query_t \<Rightarrow> node_id_t list \<Rightarrow> 's list
     \<Rightarrow> query_t \<times> 's list \<times> exn option" where
  "sample_supernodes ops query reps sns = fold (sample_step ops) reps (query, sns, None)"

subsection \<open>\<^verbatim>\<open>Graph::supernodes_to_merge\<close>\<close>

text \<open>
  One iteration of the loop over \<^verbatim>\<open>reps\<close>.  The state is the graph (of which the
  iteration writes \<^verbatim>\<open>parent\<close>, \<^verbatim>\<open>size\<close> and \<^verbatim>\<open>modified\<close>), \<^verbatim>\<open>to_merge\<close> and \<^verbatim>\<open>new_reps\<close>.
\<close>

type_synonym ('s, 'b) plan_state = "('s, 'b) Graph \<times> node_id_t list list \<times> node_id_t list"

definition plan_step ::
  "query_t \<Rightarrow> node_id_t \<Rightarrow> ('s, 'b) plan_state \<Rightarrow> ('s, 'b) plan_state option" where
  "plan_step query i st =
     (case st of (g, to_merge, new_reps) \<Rightarrow>
        (case query ! i of
           None \<Rightarrow> None
         | Some (edge, ret_code) \<Rightarrow>
             if ret_code = FAIL then Some (g\<lparr>modified := True\<rparr>, to_merge, new_reps @ [i])
             else if ret_code = ZERO then Some (g, to_merge, new_reps)
             else do {
               (a, p1) \<leftarrow> get_parent (parent g) (fst edge);
               (b, p2) \<leftarrow> get_parent p1 (snd edge);
               if a = b then Some (g\<lparr>parent := p2\<rparr>, to_merge, new_reps)
               else
                 let (a, b) = (if size_arr g ! a < size_arr g ! b then (b, a) else (a, b))
                 in Some (g\<lparr>parent := p2[b := a],
                            size_arr := (size_arr g)[a := size_arr g ! a + size_arr g ! b],
                            modified := True\<rparr>,
                          (to_merge[a := to_merge ! a @ b # to_merge ! b])[b := []],
                          new_reps)
             }))"

fun plan_loop ::
  "query_t \<Rightarrow> node_id_t list \<Rightarrow> ('s, 'b) plan_state \<Rightarrow> ('s, 'b) plan_state option" where
  "plan_loop query [] st = Some st"
| "plan_loop query (i # reps) st = do { st' \<leftarrow> plan_step query i st; plan_loop query reps st' }"

text \<open>The function returns \<^verbatim>\<open>to_merge\<close>, the new content of \<^verbatim>\<open>reps\<close> and the graph.\<close>

definition supernodes_to_merge ::
  "query_t \<Rightarrow> node_id_t list \<Rightarrow> ('s, 'b) Graph
     \<Rightarrow> (node_id_t list list \<times> node_id_t list \<times> ('s, 'b) Graph) option" where
  "supernodes_to_merge query reps g =
     do {
       (g', to_merge, new_reps) \<leftarrow> plan_loop query reps (g, replicate (num_nodes g) [], []);
       let temp_vec = filter (\<lambda>a. to_merge ! a = []) new_reps;
       let new_reps = temp_vec @ filter (\<lambda>a. to_merge ! a \<noteq> []) [0..<num_nodes g];
       Some (to_merge, new_reps, g')
     }"

subsection \<open>\<^verbatim>\<open>Graph::merge_supernodes\<close>\<close>

text \<open>
  The inner loop over \<^verbatim>\<open>to_merge[a]\<close>: a merge that throws ends the iteration of \<open>a\<close>.
\<close>

fun merge_all ::
  "('s, 'b) Supernode_ops \<Rightarrow> node_id_t \<Rightarrow> node_id_t list \<Rightarrow> 's list \<Rightarrow> 's list \<times> exn option"
  where
  "merge_all ops a [] sns = (sns, None)"
| "merge_all ops a (b # bs) sns =
     (case merge ops (sns ! a) (sns ! b) of
        (None, s) \<Rightarrow> merge_all ops a bs (sns[a := s])
      | (Some e, s) \<Rightarrow> (sns[a := s], Some e))"

text \<open>
  \<^verbatim>\<open>copy_supernodes\<close> is an array of pointers, \<open>None\<close> for the null pointer.  The copy
  \<^verbatim>\<open>Supernode::makeSupernode(*supernodes[a])\<close> is the value of the supernode.
\<close>

definition merge_step ::
  "('s, 'b) Supernode_ops \<Rightarrow> node_id_t list list \<Rightarrow> bool \<Rightarrow> node_id_t
     \<Rightarrow> 's option list \<times> ('s, 'b) Graph \<times> exn option
     \<Rightarrow> 's option list \<times> ('s, 'b) Graph \<times> exn option" where
  "merge_step ops to_merge make_copy a st =
     (case st of (copy_supernodes, g, err) \<Rightarrow>
        let copy_supernodes =
              (if make_copy \<and> copy_in_mem g
               then copy_supernodes[a := Some (supernodes g ! a)] else copy_supernodes)
        in case merge_all ops a (to_merge ! a) (supernodes g) of
             (sns, None) \<Rightarrow> (copy_supernodes, g\<lparr>supernodes := sns\<rparr>, err)
           | (sns, Some e) \<Rightarrow> (copy_supernodes, g\<lparr>supernodes := sns\<rparr>, Some e))"

definition merge_supernodes ::
  "('s, 'b) Supernode_ops \<Rightarrow> 's option list \<Rightarrow> node_id_t list \<Rightarrow> node_id_t list list \<Rightarrow> bool
     \<Rightarrow> ('s, 'b) Graph \<Rightarrow> 's option list \<times> ('s, 'b) Graph \<times> exn option" where
  "merge_supernodes ops copy_supernodes new_reps to_merge make_copy g =
     fold (merge_step ops to_merge make_copy) new_reps (copy_supernodes, g, None)"

subsection \<open>\<^verbatim>\<open>Graph::backup_to_disk\<close>, \<^verbatim>\<open>Graph::restore_from_disk\<close> and \<^verbatim>\<open>cleanup_copy\<close>\<close>

definition backup_to_disk ::
  "('s, 'b) Supernode_ops \<Rightarrow> node_id_t list \<Rightarrow> ('s, 'b) Graph \<Rightarrow> ('s, 'b) Graph" where
  "backup_to_disk ops ids_to_backup g =
     g\<lparr>backup_data :=
         concat (map (\<lambda>idx. Supernode_write_binary ops (supernodes g ! idx)) ids_to_backup)\<rparr>"

fun restore_loop ::
  "('s, 'b) Supernode_ops \<Rightarrow> node_id_t \<Rightarrow> nat \<Rightarrow> node_id_t list \<Rightarrow> 'b list \<Rightarrow> 's list \<Rightarrow> 's list"
  where
  "restore_loop ops n sd [] binary_in sns = sns"
| "restore_loop ops n sd (idx # ids) binary_in sns =
     (case makeSupernode_in ops n sd binary_in of
        (s, rest) \<Rightarrow> restore_loop ops n sd ids rest (sns[idx := s]))"

definition restore_from_disk ::
  "('s, 'b) Supernode_ops \<Rightarrow> node_id_t list \<Rightarrow> ('s, 'b) Graph \<Rightarrow> ('s, 'b) Graph" where
  "restore_from_disk ops ids_to_restore g =
     g\<lparr>supernodes :=
         restore_loop ops (num_nodes g) (seed g) ids_to_restore (backup_data g) (supernodes g)\<rparr>"

text \<open>
  The loop of \<^verbatim>\<open>cleanup_copy\<close> over \<^verbatim>\<open>backed_up\<close>.  Where \<^verbatim>\<open>copy_supernodes[i]\<close> is null
  the source stores the null pointer in \<^verbatim>\<open>supernodes[i]\<close>, which its caller dereferences:
  no result.
\<close>

fun restore_in_mem :: "'s option list \<Rightarrow> node_id_t list \<Rightarrow> 's list \<Rightarrow> 's list option" where
  "restore_in_mem copy_supernodes [] sns = Some sns"
| "restore_in_mem copy_supernodes (i # ids) sns =
     (case copy_supernodes ! i of
        None \<Rightarrow> None
      | Some s \<Rightarrow> restore_in_mem copy_supernodes ids (sns[i := s]))"

definition cleanup_copy ::
  "('s, 'b) Supernode_ops \<Rightarrow> bool \<Rightarrow> node_id_t list \<Rightarrow> 's option list \<Rightarrow> ('s, 'b) Graph
     \<Rightarrow> ('s, 'b) Graph option" where
  "cleanup_copy ops make_copy backed_up copy_supernodes g =
     (if make_copy then
        if copy_in_mem g then
          do {
            sns \<leftarrow> restore_in_mem copy_supernodes backed_up (supernodes g);
            Some (g\<lparr>supernodes := sns\<rparr>)
          }
        else Some (restore_from_disk ops backed_up g)
      else Some g)"

subsection \<open>\<^verbatim>\<open>Graph::boruvka_emulation\<close>\<close>

text \<open>The local variables of \<^verbatim>\<open>boruvka_emulation\<close> that live across the rounds.\<close>

record 's locals =
  first_round :: bool
  copy_supernodes :: "'s option list"
  query :: query_t
  reps :: "node_id_t list"
  backed_up :: "node_id_t list"

text \<open>
  The body of the \<^verbatim>\<open>do\<close> loop.  The result carries the exception that left the body,
  if one did.  The block under \<^verbatim>\<open>VERIFY_SAMPLES_F\<close> is not compiled.
\<close>

definition boruvka_round ::
  "('s, 'b) Supernode_ops \<Rightarrow> bool \<Rightarrow> 's locals \<times> ('s, 'b) Graph
     \<Rightarrow> (exn option \<times> 's locals \<times> ('s, 'b) Graph) option" where
  "boruvka_round ops make_copy st =
     (case st of (l, g) \<Rightarrow>
        let g = g\<lparr>modified := False\<rparr> in
        case sample_supernodes ops (query l) (reps l) (supernodes g) of
          (q, sns, Some e) \<Rightarrow> Some (Some e, l\<lparr>query := q\<rparr>, g\<lparr>supernodes := sns\<rparr>)
        | (q, sns, None) \<Rightarrow>
            (case supernodes_to_merge q (reps l) (g\<lparr>supernodes := sns\<rparr>) of
               None \<Rightarrow> None
             | Some (to_merge, new_reps, g) \<Rightarrow>
                 let l = l\<lparr>query := q, reps := new_reps\<rparr>;
                     l = (if make_copy \<and> first_round l then l\<lparr>backed_up := reps l\<rparr> else l);
                     g = (if make_copy \<and> first_round l \<and> \<not> copy_in_mem g
                          then backup_to_disk ops (backed_up l) g else g)
                 in case merge_supernodes ops (copy_supernodes l) (reps l) to_merge
                           (first_round l \<and> make_copy) g of
                      (c, g, Some e) \<Rightarrow> Some (Some e, l\<lparr>copy_supernodes := c\<rparr>, g)
                    | (c, g, None) \<Rightarrow>
                        Some (None, l\<lparr>first_round := False, copy_supernodes := c\<rparr>, g)))"

text \<open>\<^verbatim>\<open>do { ... } while (modified);\<close> inside the \<^verbatim>\<open>try\<close> block.\<close>

partial_function (option) boruvka_rounds ::
  "('s, 'b) Supernode_ops \<Rightarrow> bool \<Rightarrow> 's locals \<times> ('s, 'b) Graph
     \<Rightarrow> (exn option \<times> 's locals \<times> ('s, 'b) Graph) option" where
  "boruvka_rounds ops make_copy st =
     do {
       (err, l, g) \<leftarrow> boruvka_round ops make_copy st;
       if err = None \<and> modified g then boruvka_rounds ops make_copy (l, g)
       else Some (err, l, g)
     }"

text \<open>
  The map \<^verbatim>\<open>temp\<close> of the last pass, as the list of its entries in the order of their
  keys; \<open>temp_insert k i\<close> is \<^verbatim>\<open>temp[k].insert(i)\<close>.
\<close>

fun temp_insert ::
  "node_id_t \<Rightarrow> node_id_t \<Rightarrow> (node_id_t \<times> node_id_t set) list \<Rightarrow> (node_id_t \<times> node_id_t set) list"
  where
  "temp_insert k i [] = [(k, {i})]"
| "temp_insert k i ((k', s) # m) =
     (if k = k' then (k', insert i s) # m
      else if k < k' then (k, {i}) # (k', s) # m
      else (k', s) # temp_insert k i m)"

fun components_loop ::
  "node_id_t list \<Rightarrow> node_id_t list \<Rightarrow> (node_id_t \<times> node_id_t set) list
     \<Rightarrow> ((node_id_t \<times> node_id_t set) list \<times> node_id_t list) option" where
  "components_loop [] p temp = Some (temp, p)"
| "components_loop (i # is) p temp =
     do { (r, p') \<leftarrow> get_parent p i; components_loop is p' (temp_insert r i temp) }"

text \<open>\<^verbatim>\<open>std::fill(size, size + num_nodes, 1)\<close> and the loops of that shape.\<close>

definition fill :: "'a list \<Rightarrow> nat \<Rightarrow> 'a \<Rightarrow> 'a list" where
  "fill xs n v = fold (\<lambda>i ys. ys[i := v]) [0..<n] xs"

definition boruvka_init :: "bool \<Rightarrow> ('s, 'b) Graph \<Rightarrow> 's locals \<times> ('s, 'b) Graph" where
  "boruvka_init make_copy g =
     (let g = g\<lparr>update_locked := True\<rparr>;
          l = \<lparr>first_round = True,
               copy_supernodes =
                 (if make_copy \<and> copy_in_mem g then replicate (num_nodes g) None else []),
               query = replicate (num_nodes g) None,
               reps = [0..<num_nodes g],
               backed_up = []\<rparr>
      in (l, g\<lparr>size_arr := fill (size_arr g) (num_nodes g) 1\<rparr>))"

definition boruvka_emulation ::
  "('s, 'b) Supernode_ops \<Rightarrow> bool \<Rightarrow> ('s, 'b) Graph
     \<Rightarrow> ((exn + node_id_t set list) \<times> ('s, 'b) Graph) option" where
  "boruvka_emulation ops make_copy g =
     do {
       (err, l, g) \<leftarrow> boruvka_rounds ops make_copy (boruvka_init make_copy g);
       case err of
         Some e \<Rightarrow>
           do {
             g \<leftarrow> cleanup_copy ops make_copy (backed_up l) (copy_supernodes l) g;
             Some (Inl e, g)
           }
       | None \<Rightarrow>
           do {
             (temp, p) \<leftarrow> components_loop [0..<num_nodes g] (parent g) [];
             let retval = map snd temp;
             g \<leftarrow> cleanup_copy ops make_copy (backed_up l) (copy_supernodes l) (g\<lparr>parent := p\<rparr>);
             Some (Inr retval, g)
           }
     }"

subsection \<open>\<^verbatim>\<open>Graph::connected_components\<close>\<close>

definition reset_step :: "('s, 'b) Supernode_ops \<Rightarrow> node_id_t \<Rightarrow> ('s, 'b) Graph \<Rightarrow> ('s, 'b) Graph"
  where
  "reset_step ops i g =
     g\<lparr>supernodes := (supernodes g)[i := reset_query_state ops (supernodes g ! i)],
       parent := (parent g)[i := i],
       size_arr := (size_arr g)[i := 1]\<rparr>"

text \<open>
  \<^verbatim>\<open>gts->force_flush()\<close> and \<^verbatim>\<open>pause_workers()\<close> hand the buffered updates to
  \<^verbatim>\<open>batch_update\<close> and stop the workers: the graph is taken as the flush leaves it.
  With \<^verbatim>\<open>cont\<close> the exception of \<^verbatim>\<open>boruvka_emulation\<close> is kept aside and rethrown after
  the reset: both outcomes go through the same statements.
\<close>

definition connected_components ::
  "('s, 'b) Supernode_ops \<Rightarrow> bool \<Rightarrow> ('s, 'b) Graph
     \<Rightarrow> ((exn + node_id_t set list) \<times> ('s, 'b) Graph) option" where
  "connected_components ops cont g =
     (let g = g\<lparr>workers_paused := True\<rparr> in
      if \<not> cont then boruvka_emulation ops False g
      else
        do {
          (ret, g) \<leftarrow> boruvka_emulation ops True g;
          let g = fold (reset_step ops) [0..<num_nodes g] g;
          let g = g\<lparr>update_locked := False, workers_paused := False\<rparr>;
          Some (ret, g)
        })"

subsection \<open>\<^verbatim>\<open>Graph::write_binary\<close> and the constructors\<close>

record 'b graph_file =
  file_seed :: nat
  file_num_nodes :: node_id_t
  file_fail_factor :: nat
  file_supernodes :: "'b list"

text \<open>
  \<open>fail_factor\<close> is \<^verbatim>\<open>Sketch::get_failure_factor()\<close>, a setting of the process.  The
  function pauses the workers and does not resume them.
\<close>

definition Graph_write_binary ::
  "('s, 'b) Supernode_ops \<Rightarrow> nat \<Rightarrow> ('s, 'b) Graph \<Rightarrow> 'b graph_file \<times> ('s, 'b) Graph" where
  "Graph_write_binary ops fail_factor g =
     (\<lparr>file_seed = seed g,
       file_num_nodes = num_nodes g,
       file_fail_factor = fail_factor,
       file_supernodes =
         concat (map (\<lambda>i. Supernode_write_binary ops (supernodes g ! i)) [0..<num_nodes g])\<rparr>,
      g\<lparr>workers_paused := True\<rparr>)"

text \<open>
  The constructors take the static flag \<^verbatim>\<open>open_graph\<close> and return it with the graph.
  \<open>in_mem\<close> is the second component of \<^verbatim>\<open>configure_system()\<close>, \<open>disk\<close> the content of
  the backup file at that moment, \<open>sd\<close> the seed drawn from the clock.  \<^verbatim>\<open>update_locked\<close>
  and \<^verbatim>\<open>modified\<close> are not assigned by the constructors; they start as \<open>False\<close>, the
  value that lets the first update through.
\<close>

definition Graph_new ::
  "('s, 'b) Supernode_ops \<Rightarrow> bool \<Rightarrow> 'b list \<Rightarrow> bool \<Rightarrow> nat \<Rightarrow> node_id_t
     \<Rightarrow> exn + ('s, 'b) Graph \<times> bool" where
  "Graph_new ops in_mem disk open_graph sd n =
     (if open_graph then Inl MultipleGraphsException
      else Inr (\<lparr>num_nodes = n, seed = sd,
                  supernodes = map (\<lambda>i. makeSupernode ops n sd) [0..<n],
                  parent = [0..<n],
                  size_arr = replicate n 1,
                  modified = False, update_locked = False, copy_in_mem = in_mem,
                  backup_data = disk, workers_paused = False, num_updates = 0\<rparr>, True))"



subsection \<open>The supernode\<close>

text \<open>
  Modelled from the spec: \<^verbatim>\<open>Supernode\<close> (its header and its source are not among the
  files of the engine).  A supernode owns an ordered array of \<open>K\<close> sketches and a cursor
  \<open>level\<close> in \<open>[0, K]\<close> that names the next sketch to query; its other attributes are
  the vertex count \<open>n\<close>, the seed and a merged flag.  \<open>sample\<close> queries the sketch under
  the cursor and advances the cursor by one level; once \<open>level = K\<close> the supernode is
  exhausted and \<open>sample\<close> returns \<open>FAIL\<close>.  \<open>reset_query_state\<close> rewinds the cursor to 0
  without disturbing the sketches.  \<open>merge\<close> merges the sketches level by level.
  Applying the delta of a batch is the fold of \<open>update\<close> over the batch.  The record of a
  supernode is the concatenation of the records of its sketches.

  The sketch is the external primitive of the spec: \<open>update(idx)\<close>,
  \<open>sample() -> Edge | ZERO | FAIL\<close> (or the exception it surfaces), \<open>merge(other)\<close>,
  \<open>serialize/deserialize\<close>.  \<open>sk_count n\<close> is \<open>K\<close> for \<open>n\<close> vertices.
\<close>

record ('k, 'b) Sketch_ops =
  sk_count :: "node_id_t \<Rightarrow> nat"
  sk_make :: "nat \<Rightarrow> nat \<Rightarrow> 'k"
  sk_update :: "vec_t \<Rightarrow> 'k \<Rightarrow> 'k"
  sk_sample :: "'k \<Rightarrow> exn + Edge \<times> SampleSketchRet"
  sk_merge :: "'k \<Rightarrow> 'k \<Rightarrow> 'k"
  sk_serialize :: "'k \<Rightarrow> 'b list"
  sk_deserialize :: "'b list \<Rightarrow> 'k \<times> 'b list"
  sk_pairing :: "node_id_t \<Rightarrow> node_id_t \<Rightarrow> vec_t"

record 'k Supernode =
  sn_vertex_n :: node_id_t
  sn_master_seed :: nat
  sketches :: "'k list"
  level :: nat
  merged :: bool

definition Supernode_make :: "('k, 'b) Sketch_ops \<Rightarrow> node_id_t \<Rightarrow> nat \<Rightarrow> 'k Supernode" where
  "Supernode_make sk nn sd =
     \<lparr>sn_vertex_n = nn, sn_master_seed = sd,
      sketches = map (sk_make sk sd) [0..<sk_count sk nn], level = 0, merged = False\<rparr>"

primrec read_sketches :: "('k, 'b) Sketch_ops \<Rightarrow> nat \<Rightarrow> 'b list \<Rightarrow> 'k list \<times> 'b list" where
  "read_sketches sk 0 binary_in = ([], binary_in)"
| "read_sketches sk (Suc k) binary_in =
     (case sk_deserialize sk binary_in of
        (x, rest) \<Rightarrow> (case read_sketches sk k rest of (xs, rest') \<Rightarrow> (x # xs, rest')))"

definition Supernode_read ::
  "('k, 'b) Sketch_ops \<Rightarrow> node_id_t \<Rightarrow> nat \<Rightarrow> 'b list \<Rightarrow> 'k Supernode \<times> 'b list" where
  "Supernode_read sk nn sd binary_in =
     (case read_sketches sk (sk_count sk nn) binary_in of
        (xs, rest) \<Rightarrow>
          (\<lparr>sn_vertex_n = nn, sn_master_seed = sd, sketches = xs, level = 0, merged = False\<rparr>, rest))"

definition Supernode_write :: "('k, 'b) Sketch_ops \<Rightarrow> 'k Supernode \<Rightarrow> 'b list" where
  "Supernode_write sk s = concat (map (sk_serialize sk) (sketches s))"

definition Supernode_update :: "('k, 'b) Sketch_ops \<Rightarrow> vec_t \<Rightarrow> 'k Supernode \<Rightarrow> 'k Supernode" where
  "Supernode_update sk idx s = s\<lparr>sketches := map (sk_update sk idx) (sketches s)\<rparr>"

definition Supernode_delta ::
  "('k, 'b) Sketch_ops \<Rightarrow> node_id_t \<Rightarrow> nat \<Rightarrow> vec_t list \<Rightarrow> 'k Supernode" where
  "Supernode_delta sk nn sd updates = fold (Supernode_update sk) updates (Supernode_make sk nn sd)"

definition Supernode_merge ::
  "('k, 'b) Sketch_ops \<Rightarrow> 'k Supernode \<Rightarrow> 'k Supernode \<Rightarrow> exn option \<times> 'k Supernode" where
  "Supernode_merge sk s other =
     (None, s\<lparr>sketches := map2 (sk_merge sk) (sketches s) (sketches other), merged := True\<rparr>)"

definition Supernode_apply_delta ::
  "('k, 'b) Sketch_ops \<Rightarrow> 'k Supernode \<Rightarrow> 'k Supernode \<Rightarrow> 'k Supernode" where
  "Supernode_apply_delta sk s delta =
     s\<lparr>sketches := map2 (sk_merge sk) (sketches s) (sketches delta)\<rparr>"

definition Supernode_sample ::
  "('k, 'b) Sketch_ops \<Rightarrow> 'k Supernode \<Rightarrow> (exn + Edge \<times> SampleSketchRet) \<times> 'k Supernode" where
  "Supernode_sample sk s =
     (if level s < length (sketches s)
      then (sk_sample sk (sketches s ! level s), s\<lparr>level := level s + 1\<rparr>)
      else (Inr ((0, 0), FAIL), s))"

definition Supernode_reset_query_state :: "'k Supernode \<Rightarrow> 'k Supernode" where
  "Supernode_reset_query_state s = s\<lparr>level := 0\<rparr>"

definition spec_ops :: "('k, 'b) Sketch_ops \<Rightarrow> ('k Supernode, 'b) Supernode_ops" where
  "spec_ops sk =
     \<lparr>makeSupernode = Supernode_make sk,
      makeSupernode_in = Supernode_read sk,
      Supernode_write_binary = Supernode_write sk,
      sn_n = sn_vertex_n,
      sn_seed = sn_master_seed,
      pairing_fn = sk_pairing sk,
      delta_supernode = Supernode_delta sk,
      apply_delta_update = Supernode_apply_delta sk,
      sample = Supernode_sample sk,
      merge = Supernode_merge sk,
      reset_query_state = Supernode_reset_query_state\<rparr>"



subsection \<open>An exact sketch\<close>

text \<open>
  A sketch to run the engine on small graphs: it stores the edges of its vector, answers
  \<open>ZERO\<close> on the empty vector and the first edge otherwise.  \<open>Failing\<close> is a sketch whose
  query is inconclusive, \<open>Faulty\<close> one whose query throws.  The pairing function is
  \<open>i + j (j - 1) / 2\<close> for \<open>i < j\<close>; \<open>unpair\<close> inverts it.
\<close>

datatype sketch = Exact "Edge list" | Failing | Faulty

fun unpair_from :: "nat \<Rightarrow> nat \<Rightarrow> nat \<Rightarrow> Edge" where
  "unpair_from 0 j idx = (idx, j)"
| "unpair_from (Suc f) j idx = (if idx < j then (idx, j) else unpair_from f (Suc j) (idx - j))"

definition unpair :: "vec_t \<Rightarrow> Edge" where
  "unpair idx = unpair_from idx 1 idx"

definition toggle :: "Edge \<Rightarrow> Edge list \<Rightarrow> Edge list" where
  "toggle e es = (if e \<in> set es then removeAll e es else es @ [e])"

fun exact_update :: "vec_t \<Rightarrow> sketch \<Rightarrow> sketch" where
  "exact_update idx (Exact es) = Exact (toggle (unpair idx) es)"
| "exact_update idx k = k"

fun exact_sample :: "sketch \<Rightarrow> exn + Edge \<times> SampleSketchRet" where
  "exact_sample (Exact []) = Inr ((0, 0), ZERO)"
| "exact_sample (Exact (e # es)) = Inr (e, GOOD)"
| "exact_sample Failing = Inr ((0, 0), FAIL)"
| "exact_sample Faulty = Inl NoGoodBucketException"

fun exact_merge :: "sketch \<Rightarrow> sketch \<Rightarrow> sketch" where
  "exact_merge (Exact es) (Exact fs) = Exact (fold toggle fs es)"
| "exact_merge (Exact es) k = k"
| "exact_merge k k' = k"

fun exact_deserialize :: "sketch list \<Rightarrow> sketch \<times> sketch list" where
  "exact_deserialize [] = (Exact [], [])"
| "exact_deserialize (k # rest) = (k, rest)"

definition exact_sketch :: "nat \<Rightarrow> (sketch, sketch) Sketch_ops" where
  "exact_sketch K =
     \<lparr>sk_count = (\<lambda>nn. K),
      sk_make = (\<lambda>sd i. Exact []),
      sk_update = exact_update,
      sk_sample = exact_sample,
      sk_merge = exact_merge,
      sk_serialize = (\<lambda>k. [k]),
      sk_deserialize = exact_deserialize,
      sk_pairing = (\<lambda>i j. i + j * (j - 1) div 2)\<rparr>"

definition exact_ops :: "nat \<Rightarrow> (sketch Supernode, sketch) Supernode_ops" where
  "exact_ops K = spec_ops (exact_sketch K)"

declare get_parent.simps [code]
declare boruvka_rounds.simps [code]

text \<open>
  Small graphs for running the engine: a new graph over exact sketches, and the two
  batches (one for each endpoint) that the update of an edge hands to \<^verbatim>\<open>batch_update\<close>.
\<close>

definition new_graph :: "nat \<Rightarrow> bool \<Rightarrow> node_id_t \<Rightarrow> (sketch Supernode, sketch) Graph" where
  "new_graph K in_mem nn =
     (case Graph_new (exact_ops K) in_mem [] False 0 nn of
        Inr (g, open_graph) \<Rightarrow> g
      | Inl e \<Rightarrow> undefined)"

definition update_edge ::
  "nat \<Rightarrow> Edge \<Rightarrow> (sketch Supernode, sketch) Graph \<Rightarrow> (sketch Supernode, sketch) Graph" where
  "update_edge K e g =
     (case batch_update (exact_ops K) (fst e) [snd e] g of
        Some (Inr g1) \<Rightarrow>
          (case batch_update (exact_ops K) (snd e) [fst e] g1 of
             Some (Inr g2) \<Rightarrow> g2
           | _ \<Rightarrow> g1)
      | _ \<Rightarrow> g)"


subsection \<open>Sequences of calls\<close>

text \<open>
  The public functions of \<^verbatim>\<open>graph.cpp\<close> as calls on one graph, to speak of everything a
  caller can do to it afterwards.  A call has no result when the function has none.
\<close>

datatype call =
    Batch_update node_id_t "node_id_t list"
  | Write_binary nat
  | Connected_components bool

datatype 'b outcome =
    Updated
  | Thrown exn
  | Written "'b graph_file"
  | Components "node_id_t set list"

definition run_call ::
  "('s, 'b) Supernode_ops \<Rightarrow> call \<Rightarrow> ('s, 'b) Graph \<Rightarrow> ('b outcome \<times> ('s, 'b) Graph) option" where
  "run_call ops c g =
     (case c of
        Batch_update src edges \<Rightarrow>
          (case batch_update ops src edges g of
             None \<Rightarrow> None
           | Some (Inl e) \<Rightarrow> Some (Thrown e, g)
           | Some (Inr g') \<Rightarrow> Some (Updated, g'))
      | Write_binary fail_factor \<Rightarrow>
          (case Graph_write_binary ops fail_factor g of (f, g') \<Rightarrow> Some (Written f, g'))
      | Connected_components cont \<Rightarrow>
          (case connected_components ops cont g of
             None \<Rightarrow> None
           | Some (Inl e, g') \<Rightarrow> Some (Thrown e, g')
           | Some (Inr retval, g') \<Rightarrow> Some (Components retval, g')))"

fun run_calls ::
  "('s, 'b) Supernode_ops \<Rightarrow> call list \<Rightarrow> ('s, 'b) Graph
     \<Rightarrow> ('b outcome list \<times> ('s, 'b) Graph) option" where
  "run_calls ops [] g = Some ([], g)"
| "run_calls ops (c # cs) g =
     do {
       (out, g1) \<leftarrow> run_call ops c g;
       (outs, g2) \<leftarrow> run_calls ops cs g1;
       Some (out # outs, g2)
     }"




section \<open>Notions used in the proofs\<close>

text \<open>
  \<open>root_of p x r\<close>: following the parent pointers of \<open>p\<close> from \<open>x\<close> ends in the root
  \<open>r\<close>.  \<open>dsu_inv p\<close>: \<^verbatim>\<open>get_parent\<close> returns for every vertex.  \<open>find_root\<close> is the
  value that \<^verbatim>\<open>get_parent\<close> returns.
\<close>

inductive root_of :: "node_id_t list \<Rightarrow> node_id_t \<Rightarrow> node_id_t \<Rightarrow> bool" for p where
  root: "x < length p \<Longrightarrow> p ! x = x \<Longrightarrow> root_of p x x"
| step: "x < length p \<Longrightarrow> p ! x \<noteq> x \<Longrightarrow> root_of p (p ! x) r \<Longrightarrow> root_of p x r"

definition dsu_inv :: "node_id_t list \<Rightarrow> bool" where
  "dsu_inv p = list_all (\<lambda>x. get_parent p x \<noteq> None) [0..<length p]"

definition find_root :: "node_id_t list \<Rightarrow> node_id_t \<Rightarrow> node_id_t option" where
  "find_root p v = map_option fst (get_parent p v)"

text \<open>
  \<open>temp_inv p V temp\<close>: the map \<^verbatim>\<open>temp\<close> holds, for every root with a vertex in \<open>V\<close>, the
  vertices of \<open>V\<close> under that root, and nothing else.
\<close>

definition temp_inv :: "node_id_t list \<Rightarrow> node_id_t set \<Rightarrow> (node_id_t \<times> node_id_t set) list \<Rightarrow> bool"
  where
  "temp_inv p V temp \<longleftrightarrow>
     sorted_wrt (<) (map fst temp) \<and>
     (\<forall>k. map_of temp k =
        (if {v \<in> V. root_of p v k} = {} then None else Some {v \<in> V. root_of p v k}))"

text \<open>
  \<open>frame g g'\<close>: what no function of the driver changes between \<open>g\<close> and \<open>g'\<close>;
  \<open>same_dsu g g'\<close>: the disjoint-set arrays and \<^verbatim>\<open>modified\<close> are the same.
\<close>

definition frame :: "('s, 'b) Graph \<Rightarrow> ('s, 'b) Graph \<Rightarrow> bool" where
  "frame g g' \<longleftrightarrow>
     num_nodes g' = num_nodes g \<and> seed g' = seed g \<and> update_locked g' = update_locked g \<and>
     copy_in_mem g' = copy_in_mem g \<and> workers_paused g' = workers_paused g \<and>
     num_updates g' = num_updates g \<and>
     length (supernodes g') = length (supernodes g) \<and>
     length (size_arr g') = length (size_arr g) \<and>
     length (parent g') = length (parent g) \<and>
     (dsu_inv (parent g) \<longrightarrow> dsu_inv (parent g'))"

definition same_dsu :: "('s, 'b) Graph \<Rightarrow> ('s, 'b) Graph \<Rightarrow> bool" where
  "same_dsu g g' \<longleftrightarrow>
     parent g' = parent g \<and> size_arr g' = size_arr g \<and> modified g' = modified g"

text \<open>\<open>is_FAIL q i\<close>: the sample stored for \<open>i\<close> is an inconclusive one.\<close>

definition is_FAIL :: "query_t \<Rightarrow> node_id_t \<Rightarrow> bool" where
  "is_FAIL q i = (map_option snd (q ! i) = Some FAIL)"



text \<open>
  For the termination of the rounds.  \<open>roots p\<close>: the vertices that are their own parent.
  \<open>remaining rem sns\<close>: the sum over the supernodes of a count \<open>rem\<close> of the levels left.
  \<open>sampling_ok ops N rem ok\<close>: on the supernodes that satisfy \<open>ok\<close>, a set closed under
  \<open>sample\<close> and \<open>merge\<close>, no sample increases \<open>rem\<close>, a sample that answers \<open>FAIL\<close>
  decreases it, and a sampled edge names two of the \<open>N\<close> vertices.  \<open>tm_ok\<close>: the entries
  of \<^verbatim>\<open>to_merge\<close> are vertices.  \<open>round_inv\<close>: the state between two rounds is well formed.
\<close>

definition roots :: "node_id_t list \<Rightarrow> node_id_t list" where
  "roots p = filter (\<lambda>i. p ! i = i) [0..<length p]"






section \<open>The disjoint-set forest\<close>

lemma root_of_is_root: "root_of p x r \<Longrightarrow> r < length p \<and> p ! r = r"
  by (induction rule: root_of.induct) auto

lemma root_of_in_range: "root_of p x r \<Longrightarrow> x < length p"
  by (cases rule: root_of.cases) auto

lemma root_of_det: "root_of p x r \<Longrightarrow> root_of p x s \<Longrightarrow> r = s"
proof (induction arbitrary: s rule: root_of.induct)
  case (root x)
  then show ?case by (auto elim: root_of.cases)
next
  case (step x r)
  from step.prems step.hyps(1,2) have "root_of p (p ! x) s"
    by (cases rule: root_of.cases) simp_all
  then show ?case by (rule step.IH)
qed

lemma root_of_self: "root_of p r r \<longleftrightarrow> r < length p \<and> p ! r = r"
  by (auto intro: root_of.root dest: root_of_is_root)

lemma root_of_compress:
  assumes xr: "root_of p x r"
  shows "root_of p y s \<Longrightarrow> root_of (p[x := r]) y s"
proof (induction rule: root_of.induct)
  case (root y)
  show ?case
  proof (cases "y = x")
    case True
    from root have "root_of p y y" by (rule root_of.root)
    with xr True have "r = x" by (simp add: root_of_det)
    with root True show ?thesis by (simp add: root_of.root)
  next
    case False
    with root show ?thesis by (simp add: root_of.root)
  qed
next
  case (step y s)
  from xr have rr: "r < length p" "p ! r = r" by (simp_all add: root_of_is_root)
  show ?case
  proof (cases "y = x")
    case True
    from step.hyps have "root_of p y s" by (rule root_of.step)
    with xr True have rs: "r = s" by (simp add: root_of_det)
    from step.hyps(2) True rr have "r \<noteq> x" by auto
    with rr have "root_of (p[x := r]) r r" by (simp add: root_of.root)
    with step.hyps(1) True \<open>r \<noteq> x\<close> have "root_of (p[x := r]) x r"
      by - (rule root_of.step; simp)
    with True rs show ?thesis by simp
  next
    case False
    with step.hyps(1,2) step.IH show ?thesis
      by - (rule root_of.step; simp)
  qed
qed

lemma root_of_union:
  assumes a: "a < length p" "p ! a = a" and b: "b < length p" "p ! b = b" and ab: "a \<noteq> b"
  shows "root_of p y s \<Longrightarrow> root_of (p[b := a]) y (if s = b then a else s)"
proof (induction rule: root_of.induct)
  case (root y)
  show ?case
  proof (cases "y = b")
    case True
    from a ab have "root_of (p[b := a]) a a" by (simp add: root_of.root)
    with b ab have "root_of (p[b := a]) b a"
      by - (rule root_of.step; simp)
    with True show ?thesis by simp
  next
    case False
    with root show ?thesis by (simp add: root_of.root)
  qed
next
  case (step y s)
  with b have "y \<noteq> b" by auto
  with step.hyps(1,2) step.IH show ?case
    by - (rule root_of.step; simp)
qed

lemma get_parent_complete:
  "root_of p x r \<Longrightarrow>
     \<exists>p'. get_parent p x = Some (r, p') \<and> length p' = length p \<and>
          (\<forall>y s. root_of p y s \<longrightarrow> root_of p' y s)"
proof (induction rule: root_of.induct)
  case (root x)
  then show ?case by (subst get_parent.simps) simp
next
  case (step x r)
  then obtain p' where p': "get_parent p (p ! x) = Some (r, p')" "length p' = length p"
    "\<forall>y s. root_of p y s \<longrightarrow> root_of p' y s" by blast
  from step.hyps have xr: "root_of p x r" by (rule root_of.step)
  with p'(3) have "root_of p' x r" by blast
  with p'(3) have "\<forall>y s. root_of p y s \<longrightarrow> root_of (p'[x := r]) y s"
    by (blast intro: root_of_compress)
  with p'(1,2) step.hyps(1,2) show ?case
    by (subst get_parent.simps) simp
qed

lemma get_parent_sound_aux:
  "get_parent p x = Some res \<Longrightarrow> root_of p x (fst res)"
proof (induction rule: get_parent.raw_induct[rotated 1, consumes 1])
  case (1 gp p node res)
  note IH = "1"(1) and body = "1"(2)
  from body have n: "node < length p" by (simp split: if_splits)
  show ?case
  proof (cases "p ! node = node")
    case True
    with body n have "res = (node, p)" by simp
    with True n show ?thesis by (simp add: root_of.root)
  next
    case False
    with body n have "(gp p (p ! node) \<bind> (\<lambda>(r, p'). Some (r, p'[node := r]))) = Some res"
      by simp
    then obtain r p' where gp: "gp p (p ! node) = Some (r, p')" and res: "res = (r, p'[node := r])"
      by (cases "gp p (p ! node)") auto
    from IH[OF gp] have "root_of p (p ! node) r" by simp
    with n False res show ?thesis by (simp add: root_of.step)
  qed
qed

lemma get_parent_sound: "get_parent p x = Some (r, p') \<Longrightarrow> root_of p x r"
  by (drule get_parent_sound_aux) simp


lemma dsu_inv_iff: "dsu_inv p \<longleftrightarrow> (\<forall>x<length p. \<exists>r. root_of p x r)"
proof
  assume inv: "dsu_inv p"
  show "\<forall>x<length p. \<exists>r. root_of p x r"
  proof (intro allI impI)
    fix x assume "x < length p"
    with inv have "get_parent p x \<noteq> None" by (simp add: dsu_inv_def list_all_iff)
    then obtain r p' where "get_parent p x = Some (r, p')" by (cases "get_parent p x") auto
    then show "\<exists>r. root_of p x r" by (blast dest: get_parent_sound)
  qed
next
  assume r: "\<forall>x<length p. \<exists>r. root_of p x r"
  show "dsu_inv p"
    unfolding dsu_inv_def list_all_iff
  proof
    fix x assume "x \<in> set [0..<length p]"
    with r obtain r where "root_of p x r" by auto
    from get_parent_complete[OF this] show "get_parent p x \<noteq> None" by auto
  qed
qed

lemma get_parent_inv:
  assumes gp: "get_parent p x = Some (r, p')" and inv: "dsu_inv p"
  shows "length p' = length p" and "dsu_inv p'" and "root_of p x r"
    and "\<And>y s. root_of p' y s \<longleftrightarrow> root_of p y s"
proof -
  show xr: "root_of p x r" using gp by (rule get_parent_sound)
  from get_parent_complete[OF xr] gp
  have len: "length p' = length p" and pres: "\<And>y s. root_of p y s \<Longrightarrow> root_of p' y s"
    by auto
  show "length p' = length p" by (rule len)
  show inv': "dsu_inv p'"
    using inv len pres unfolding dsu_inv_iff by metis
  show "root_of p' y s \<longleftrightarrow> root_of p y s" for y s
  proof
    assume a: "root_of p' y s"
    then have "y < length p" using len by (auto dest: root_of_in_range)
    with inv obtain s' where s': "root_of p y s'" unfolding dsu_inv_iff by blast
    from pres[OF s'] a have "s' = s" by (rule root_of_det)
    with s' show "root_of p y s" by simp
  qed (rule pres)
qed

lemma get_parent_total:
  "dsu_inv p \<Longrightarrow> x < length p \<Longrightarrow> \<exists>r p'. get_parent p x = Some (r, p')"
  unfolding dsu_inv_iff by (blast dest: get_parent_complete)

lemma dsu_inv_union:
  assumes inv: "dsu_inv p" and a: "a < length p" "p ! a = a" and b: "b < length p" "p ! b = b"
    and ab: "a \<noteq> b"
  shows "dsu_inv (p[b := a])"
  unfolding dsu_inv_iff
proof (intro allI impI)
  fix x assume "x < length (p[b := a])"
  with inv obtain s where "root_of p x s" unfolding dsu_inv_iff by auto
  from root_of_union[OF a b ab this] show "\<exists>r. root_of (p[b := a]) x r" by blast
qed

lemma dsu_inv_upt: "dsu_inv [0..<n]"
  unfolding dsu_inv_iff
proof (intro allI impI)
  fix x assume "x < length [0..<n]"
  then have "root_of [0..<n] x x" by - (rule root_of.root; simp)
  then show "\<exists>r. root_of [0..<n] x r" ..
qed


lemma temp_insert_keys:
  "fst ` set (temp_insert k i m) = insert k (fst ` set m)"
  by (induction k i m rule: temp_insert.induct) auto

lemma temp_insert_sorted:
  "sorted_wrt (<) (map fst m) \<Longrightarrow> sorted_wrt (<) (map fst (temp_insert k i m))"
proof (induction k i m rule: temp_insert.induct)
  case (1 k i)
  then show ?case by simp
next
  case (2 k i k' s m)
  have "fst ` set (temp_insert k i m) = insert k (fst ` set m)" by (rule temp_insert_keys)
  with 2 show ?case by (auto simp: image_iff)
qed

lemma temp_insert_map_of:
  "sorted_wrt (<) (map fst m) \<Longrightarrow>
   map_of (temp_insert k i m) =
     (map_of m)(k \<mapsto> insert i (case map_of m k of None \<Rightarrow> {} | Some S \<Rightarrow> S))"
proof (induction k i m rule: temp_insert.induct)
  case (1 k i)
  then show ?case by simp
next
  case (2 k i k' s m)
  show ?case
  proof (cases "k = k'")
    case True
    then show ?thesis by (auto simp: fun_eq_iff)
  next
    case False
    show ?thesis
    proof (cases "k < k'")
      case True
      with 2(2) have "k \<notin> fst ` set m" by auto
      then have "map_of m k = None" by (simp add: map_of_eq_None_iff)
      with True False show ?thesis by (auto simp: fun_eq_iff)
    next
      case g: False
      with False 2 show ?thesis by (auto simp: fun_eq_iff)
    qed
  qed
qed



lemma temp_inv_insert:
  assumes inv: "temp_inv p V temp" and r: "root_of p i r"
  shows "temp_inv p (insert i V) (temp_insert r i temp)"
proof -
  from inv have srt: "sorted_wrt (<) (map fst temp)" by (simp add: temp_inv_def)
  from inv have old: "map_of temp k =
        (if {v \<in> V. root_of p v k} = {} then None else Some {v \<in> V. root_of p v k})" for k
    by (simp add: temp_inv_def)
  have m: "map_of (temp_insert r i temp) =
     (map_of temp)(r \<mapsto> insert i (case map_of temp r of None \<Rightarrow> {} | Some S \<Rightarrow> S))"
    using srt by (rule temp_insert_map_of)
  have c: "(case map_of temp r of None \<Rightarrow> {} | Some S \<Rightarrow> S) = {v \<in> V. root_of p v r}"
    by (simp add: old)
  have cls: "{v \<in> insert i V. root_of p v k} =
      (if k = r then insert i {v \<in> V. root_of p v r} else {v \<in> V. root_of p v k})" for k
    using r by (auto dest: root_of_det)
  have "map_of (temp_insert r i temp) k =
        (if {v \<in> insert i V. root_of p v k} = {} then None
         else Some {v \<in> insert i V. root_of p v k})" for k
    unfolding m c cls by (simp add: old)
  with temp_insert_sorted[OF srt] show ?thesis by (simp add: temp_inv_def)
qed

lemma components_loop_inv:
  assumes "dsu_inv p" and "set vs \<subseteq> {0..<length p}" and "temp_inv p V temp"
  shows "\<exists>temp' p'. components_loop vs p temp = Some (temp', p') \<and>
           length p' = length p \<and> dsu_inv p' \<and>
           (\<forall>y s. root_of p' y s \<longleftrightarrow> root_of p y s) \<and>
           temp_inv p (V \<union> set vs) temp'"
  using assms
proof (induction vs arbitrary: p temp V)
  case Nil
  then show ?case by simp
next
  case (Cons i vs)
  from Cons.prems have i: "i < length p" by simp
  with Cons.prems(1) obtain r p1 where gp: "get_parent p i = Some (r, p1)"
    by (blast dest: get_parent_total)
  note g = get_parent_inv[OF gp Cons.prems(1)]
  have eq: "root_of p1 = root_of p" using g(4) by (intro ext) simp
  have t1: "temp_inv p1 (insert i V) (temp_insert r i temp)"
    using temp_inv_insert[OF Cons.prems(3) g(3)] by (simp add: temp_inv_def eq)
  from Cons.prems(2) g(1) have "set vs \<subseteq> {0..<length p1}" by simp
  from Cons.IH[OF g(2) this t1] obtain temp' p' where
    r: "components_loop vs p1 (temp_insert r i temp) = Some (temp', p')"
       "length p' = length p1" "dsu_inv p'" "\<forall>y s. root_of p' y s \<longleftrightarrow> root_of p1 y s"
       "temp_inv p1 (insert i V \<union> set vs) temp'" by blast
  from r(5) have "temp_inv p (V \<union> set (i # vs)) temp'" by (simp add: temp_inv_def eq)
  with r(1-4) gp g(1) show ?case by (simp add: eq)
qed

lemma temp_inv_partition:
  assumes inv: "temp_inv p V temp" and tot: "\<forall>v\<in>V. \<exists>r. root_of p v r"
  shows "\<Union> (set (map snd temp)) = V"
    and "\<forall>i<length temp. \<forall>j<length temp. i \<noteq> j \<longrightarrow> snd (temp ! i) \<inter> snd (temp ! j) = {}"
    and "\<forall>S\<in>set (map snd temp). S \<noteq> {} \<and> (\<exists>r. S = {v \<in> V. root_of p v r})"
proof -
  from inv have srt: "sorted_wrt (<) (map fst temp)" by (simp add: temp_inv_def)
  then have dist: "distinct (map fst temp)" by (simp add: strict_sorted_iff)
  from inv have mo: "map_of temp k =
        (if {v \<in> V. root_of p v k} = {} then None else Some {v \<in> V. root_of p v k})" for k
    by (simp add: temp_inv_def)
  have el: "S \<noteq> {} \<and> S = {v \<in> V. root_of p v k}" if "(k, S) \<in> set temp" for k S
  proof -
    from that dist have "map_of temp k = Some S" by simp
    then show ?thesis unfolding mo by (auto split: if_splits)
  qed
  show "\<forall>S\<in>set (map snd temp). S \<noteq> {} \<and> (\<exists>r. S = {v \<in> V. root_of p v r})"
    using el by fastforce
  show "\<Union> (set (map snd temp)) = V"
  proof (intro equalityI subsetI)
    fix v assume "v \<in> \<Union> (set (map snd temp))"
    then obtain k S where "(k, S) \<in> set temp" "v \<in> S" by auto
    with el show "v \<in> V" by blast
  next
    fix v assume v: "v \<in> V"
    with tot obtain r where r: "root_of p v r" by blast
    with v have "{v \<in> V. root_of p v r} \<noteq> {}" by blast
    then have "map_of temp r = Some {v \<in> V. root_of p v r}" unfolding mo by simp
    then have "(r, {v \<in> V. root_of p v r}) \<in> set temp" by (rule map_of_SomeD)
    with v r show "v \<in> \<Union> (set (map snd temp))" by force
  qed
  show "\<forall>i<length temp. \<forall>j<length temp. i \<noteq> j \<longrightarrow> snd (temp ! i) \<inter> snd (temp ! j) = {}"
  proof (intro allI impI)
    fix i j assume ij: "i < length temp" "j < length temp" "i \<noteq> j"
    with dist have ne: "fst (temp ! i) \<noteq> fst (temp ! j)"
      by (simp add: distinct_conv_nth)
    from ij have "(fst (temp ! i), snd (temp ! i)) \<in> set temp" "(fst (temp ! j), snd (temp ! j)) \<in> set temp"
      by simp_all
    from el[OF this(1)] el[OF this(2)] ne show "snd (temp ! i) \<inter> snd (temp ! j) = {}"
      by (auto dest: root_of_det)
  qed
qed

section \<open>The planning pass\<close>

lemma find_root_iff: "find_root p v = Some r \<longleftrightarrow> root_of p v r"
proof
  assume "find_root p v = Some r"
  then obtain p' where "get_parent p v = Some (r, p')" by (auto simp: find_root_def)
  then show "root_of p v r" by (rule get_parent_sound)
next
  assume "root_of p v r"
  from get_parent_complete[OF this] show "find_root p v = Some r"
    by (auto simp: find_root_def)
qed


text \<open>What one iteration of the planning loop can do.\<close>

lemma plan_step_FAIL:
  "qy ! i = Some (e, FAIL) \<Longrightarrow>
   plan_step qy i (g, tm, nr) = Some (g\<lparr>modified := True\<rparr>, tm, nr @ [i])"
  by (simp add: plan_step_def)

lemma plan_step_ZERO:
  "qy ! i = Some (e, ZERO) \<Longrightarrow> plan_step qy i (g, tm, nr) = Some (g, tm, nr)"
  by (simp add: plan_step_def)

lemma plan_step_GOOD:
  "qy ! i = Some (e, GOOD) \<Longrightarrow>
   plan_step qy i (g, tm, nr) =
     do {
       (a, p1) \<leftarrow> get_parent (parent g) (fst e);
       (b, p2) \<leftarrow> get_parent p1 (snd e);
       if a = b then Some (g\<lparr>parent := p2\<rparr>, tm, nr)
       else
         let (a, b) = (if size_arr g ! a < size_arr g ! b then (b, a) else (a, b))
         in Some (g\<lparr>parent := p2[b := a],
                    size_arr := (size_arr g)[a := size_arr g ! a + size_arr g ! b],
                    modified := True\<rparr>,
                  (tm[a := tm ! a @ b # tm ! b])[b := []],
                  nr)
     }"
  by (simp add: plan_step_def)



lemma frame_refl: "frame g g"
  by (simp add: frame_def)

lemma frame_trans: "frame g g' \<Longrightarrow> frame g' g'' \<Longrightarrow> frame g g''"
  by (simp add: frame_def)

lemma plan_step_frame:
  assumes "plan_step qy i (g, tm, nr) = Some (g', tm', nr')"
  shows "frame g g' \<and> supernodes g' = supernodes g \<and> backup_data g' = backup_data g \<and>
         length tm' = length tm"
proof (cases "qy ! i")
  case None
  with assms show ?thesis by (simp add: plan_step_def)
next
  case (Some q)
  obtain e rc where q: "q = (e, rc)" by (cases q)
  show ?thesis
  proof (cases rc)
    case FAIL
    with assms Some q show ?thesis by (auto simp: plan_step_FAIL frame_def)
  next
    case ZERO
    with assms Some q show ?thesis by (auto simp: plan_step_ZERO frame_def)
  next
    case GOOD
    from assms Some q GOOD obtain a p1 b p2 where
      gp1: "get_parent (parent g) (fst e) = Some (a, p1)" and
      gp2: "get_parent p1 (snd e) = Some (b, p2)" and
      res: "(if a = b then Some (g\<lparr>parent := p2\<rparr>, tm, nr)
       else
         let (a, b) = (if size_arr g ! a < size_arr g ! b then (b, a) else (a, b))
         in Some (g\<lparr>parent := p2[b := a],
                    size_arr := (size_arr g)[a := size_arr g ! a + size_arr g ! b],
                    modified := True\<rparr>,
                  (tm[a := tm ! a @ b # tm ! b])[b := []],
                  nr)) = Some (g', tm', nr')"
      by (simp add: plan_step_GOOD bind_eq_Some_conv) blast
    have len: "length p2 = length (parent g)"
      using get_parent_complete[OF get_parent_sound[OF gp1]] get_parent_complete[OF get_parent_sound[OF gp2]]
        gp1 gp2 by auto
    have inv: "dsu_inv p2 \<and> a < length p2 \<and> p2 ! a = a \<and> b < length p2 \<and> p2 ! b = b"
      if i0: "dsu_inv (parent g)"
    proof -
      note g1 = get_parent_inv[OF gp1 i0]
      note g2 = get_parent_inv[OF gp2 g1(2)]
      from g1(3) have "root_of (parent g) a a" by (simp add: root_of_self root_of_is_root)
      then have "root_of p2 a a" by (simp add: g1(4) g2(4))
      moreover from g2(3) have "root_of p1 b b" by (simp add: root_of_self root_of_is_root)
      then have "root_of p2 b b" by (simp add: g2(4))
      ultimately show ?thesis using g2(2) by (simp add: root_of_self)
    qed
    show ?thesis
    proof (cases "a = b")
      case True
      with res len inv show ?thesis by (auto simp: frame_def)
    next
      case False
      with res len inv show ?thesis
        by (auto simp: frame_def dsu_inv_union split: if_splits)
    qed
  qed
qed

lemma plan_loop_frame:
  "plan_loop qy rs (g, tm, nr) = Some (g', tm', nr') \<Longrightarrow>
   frame g g' \<and> supernodes g' = supernodes g \<and> backup_data g' = backup_data g \<and>
   length tm' = length tm"
proof (induction rs arbitrary: g tm nr)
  case Nil
  then show ?case by (simp add: frame_refl)
next
  case (Cons i rs)
  from Cons.prems obtain g1 tm1 nr1 where
    s: "plan_step qy i (g, tm, nr) = Some (g1, tm1, nr1)" and
    l: "plan_loop qy rs (g1, tm1, nr1) = Some (g', tm', nr')"
    by (auto simp: bind_eq_Some_conv)
  from plan_step_frame[OF s] Cons.IH[OF l] show ?case
    by (auto intro: frame_trans)
qed

lemma supernodes_to_merge_frame:
  assumes "supernodes_to_merge qy rs g = Some (tm, nr, g')"
  shows "frame g g' \<and> supernodes g' = supernodes g \<and> backup_data g' = backup_data g \<and>
         length tm = num_nodes g"
proof -
  from assms obtain nr0 where "plan_loop qy rs (g, replicate (num_nodes g) [], []) = Some (g', tm, nr0)"
    by (auto simp: supernodes_to_merge_def bind_eq_Some_conv Let_def)
  from plan_loop_frame[OF this] show ?thesis by simp
qed

section \<open>The rounds\<close>

lemma sample_step_length:
  "sample_step ops r (q, sns, err) = (q', sns', err') \<Longrightarrow>
   length q' = length q \<and> length sns' = length sns"
  by (auto simp: sample_step_def split: prod.splits sum.splits)

lemma sample_supernodes_length:
  "sample_supernodes ops q rs sns = (q', sns', err') \<Longrightarrow>
   length q' = length q \<and> length sns' = length sns"
proof -
  have "fold (sample_step ops) rs (q, sns, err) = (q', sns', err') \<Longrightarrow>
        length q' = length q \<and> length sns' = length sns" for err
  proof (induction rs arbitrary: q sns err)
    case Nil
    then show ?case by simp
  next
    case (Cons r rs)
    obtain q1 sns1 err1 where s: "sample_step ops r (q, sns, err) = (q1, sns1, err1)"
      by (cases "sample_step ops r (q, sns, err)")
    with Cons.prems have "fold (sample_step ops) rs (q1, sns1, err1) = (q', sns', err')" by simp
    from Cons.IH[OF this] sample_step_length[OF s] show ?case by simp
  qed
  then show "sample_supernodes ops q rs sns = (q', sns', err') \<Longrightarrow>
   length q' = length q \<and> length sns' = length sns"
    by (simp add: sample_supernodes_def)
qed

lemma merge_all_length:
  "merge_all ops a bs sns = (sns', err) \<Longrightarrow> length sns' = length sns"
  by (induction bs arbitrary: sns) (auto split: prod.splits option.splits)



lemma frame_same_dsu:
  "same_dsu g g' \<Longrightarrow> num_nodes g' = num_nodes g \<Longrightarrow> seed g' = seed g \<Longrightarrow>
   update_locked g' = update_locked g \<Longrightarrow> copy_in_mem g' = copy_in_mem g \<Longrightarrow>
   workers_paused g' = workers_paused g \<Longrightarrow> num_updates g' = num_updates g \<Longrightarrow>
   length (supernodes g') = length (supernodes g) \<Longrightarrow> frame g g'"
  by (simp add: frame_def same_dsu_def)

lemma merge_step_frame:
  "merge_step ops tm mc a (c, g, err) = (c', g', err') \<Longrightarrow>
   frame g g' \<and> same_dsu g g' \<and> backup_data g' = backup_data g \<and> length c' = length c"
  by (auto simp: merge_step_def Let_def frame_def same_dsu_def
      split: prod.splits option.splits if_splits dest: merge_all_length)

lemma merge_supernodes_frame:
  "merge_supernodes ops c rs tm mc g = (c', g', err') \<Longrightarrow>
   frame g g' \<and> same_dsu g g' \<and> backup_data g' = backup_data g \<and> length c' = length c"
proof -
  have "fold (merge_step ops tm mc) rs (c, g, err) = (c', g', err') \<Longrightarrow>
   frame g g' \<and> same_dsu g g' \<and> backup_data g' = backup_data g \<and> length c' = length c" for err
  proof (induction rs arbitrary: c g err)
    case Nil
    then show ?case by (simp add: frame_refl same_dsu_def)
  next
    case (Cons r rs)
    obtain c1 g1 err1 where s: "merge_step ops tm mc r (c, g, err) = (c1, g1, err1)"
      by (cases "merge_step ops tm mc r (c, g, err)")
    with Cons.prems have "fold (merge_step ops tm mc) rs (c1, g1, err1) = (c', g', err')" by simp
    from Cons.IH[OF this] merge_step_frame[OF s] show ?case
      by (auto intro: frame_trans simp: same_dsu_def)
  qed
  then show "merge_supernodes ops c rs tm mc g = (c', g', err') \<Longrightarrow>
   frame g g' \<and> same_dsu g g' \<and> backup_data g' = backup_data g \<and> length c' = length c"
    by (simp add: merge_supernodes_def)
qed

lemma frame_modified: "frame (g\<lparr>modified := m\<rparr>) g' \<Longrightarrow> frame g g'"
  by (simp add: frame_def)

lemma frame_supernodes:
  "length sns = length (supernodes g) \<Longrightarrow> frame (g\<lparr>supernodes := sns\<rparr>) g' \<Longrightarrow> frame g g'"
  by (simp add: frame_def)

lemma frame_backup: "frame g (backup_to_disk ops ids g)"
  by (simp add: frame_def backup_to_disk_def)

text \<open>The shape of a round: the three calls in sequence.\<close>

lemma boruvka_round_cases:
  assumes "boruvka_round ops mc (l, g) = Some (err, l', g')"
  obtains (sample_throws) q sns e where
      "sample_supernodes ops (query l) (reps l) (supernodes g) = (q, sns, Some e)"
      "err = Some e" "l' = l\<lparr>query := q\<rparr>" "g' = g\<lparr>modified := False, supernodes := sns\<rparr>"
  | (merged) q sns tm nr g1 c g2 e' where
      "sample_supernodes ops (query l) (reps l) (supernodes g) = (q, sns, None)"
      "supernodes_to_merge q (reps l) (g\<lparr>modified := False, supernodes := sns\<rparr>) = Some (tm, nr, g1)"
      "merge_supernodes ops (copy_supernodes l) nr tm (first_round l \<and> mc)
         (if mc \<and> first_round l \<and> \<not> copy_in_mem g1 then backup_to_disk ops nr g1 else g1)
       = (c, g2, e')"
      "err = e'" "g' = g2"
      "l' = l\<lparr>first_round := (if e' = None then False else first_round l),
               copy_supernodes := c, query := q, reps := nr,
               backed_up := (if mc \<and> first_round l then nr else backed_up l)\<rparr>"
proof -
  obtain q sns e0 where s: "sample_supernodes ops (query l) (reps l) (supernodes g) = (q, sns, e0)"
    by (cases "sample_supernodes ops (query l) (reps l) (supernodes g)")
  show thesis
  proof (cases e0)
    case (Some e)
    with assms s show ?thesis
      by (intro sample_throws[of q sns e]) (auto simp: boruvka_round_def)
  next
    case None
    with assms s obtain tm nr g1 where
      p: "supernodes_to_merge q (reps l) (g\<lparr>modified := False, supernodes := sns\<rparr>) = Some (tm, nr, g1)"
      by (auto simp: boruvka_round_def split: option.splits)
    obtain c g2 e' where m: "merge_supernodes ops (copy_supernodes l) nr tm (first_round l \<and> mc)
         (if mc \<and> first_round l \<and> \<not> copy_in_mem g1 then backup_to_disk ops nr g1 else g1)
       = (c, g2, e')"
      by (cases "merge_supernodes ops (copy_supernodes l) nr tm (first_round l \<and> mc)
         (if mc \<and> first_round l \<and> \<not> copy_in_mem g1 then backup_to_disk ops nr g1 else g1)")
    from assms s None p m show ?thesis
      by (intro merged[of q sns tm nr g1 c g2 e'])
         (auto simp: boruvka_round_def Let_def split: option.splits if_splits)
  qed
qed


lemma boruvka_round_frame:
  assumes "boruvka_round ops mc (l, g) = Some (err, l', g')"
  shows "frame g g'"
  using assms
proof (cases rule: boruvka_round_cases)
  case (sample_throws q sns e)
  from sample_supernodes_length[OF sample_throws(1)] sample_throws(4)
  show ?thesis by (simp add: frame_def)
next
  case (merged q sns tm nr g1 c g2 e')
  let ?g0 = "g\<lparr>modified := False, supernodes := sns\<rparr>"
  from sample_supernodes_length[OF merged(1)] have "frame g ?g0" by (simp add: frame_def)
  moreover from supernodes_to_merge_frame[OF merged(2)] have "frame ?g0 g1" by simp
  moreover have "frame g1 (if mc \<and> first_round l \<and> \<not> copy_in_mem g1 then backup_to_disk ops nr g1 else g1)"
    by (simp add: frame_backup frame_refl)
  moreover from merge_supernodes_frame[OF merged(3)]
  have "frame (if mc \<and> first_round l \<and> \<not> copy_in_mem g1 then backup_to_disk ops nr g1 else g1) g2"
    by simp
  ultimately show ?thesis using merged(5) by (blast intro: frame_trans)
qed

lemma boruvka_rounds_frame_aux:
  "boruvka_rounds ops mc st = Some res \<Longrightarrow> frame (snd st) (snd (snd res))"
proof (induction rule: boruvka_rounds.raw_induct[rotated 1, consumes 1])
  case (1 rounds ops mc st res)
  obtain l g where st: "st = (l, g)" by (cases st)
  from "1"(2) obtain err l1 g1 where
    r: "boruvka_round ops mc (l, g) = Some (err, l1, g1)" and
    c: "(if err = None \<and> modified g1 then rounds ops mc (l1, g1) else Some (err, l1, g1)) = Some res"
    by (auto simp: st bind_eq_Some_conv)
  note f = boruvka_round_frame[OF r]
  show ?case
  proof (cases "err = None \<and> modified g1")
    case True
    with c have "rounds ops mc (l1, g1) = Some res" by simp
    from "1"(1)[OF this] f show ?thesis by (auto simp: st intro: frame_trans)
  next
    case False
    with c f show ?thesis by (auto simp: st)
  qed
qed

lemma boruvka_rounds_frame:
  "boruvka_rounds ops mc (l, g) = Some (err, l', g') \<Longrightarrow> frame g g'"
  by (drule boruvka_rounds_frame_aux) simp


lemma length_fill: "length (fill xs n v) = length xs"
proof -
  have "length (fold (\<lambda>i ys. ys[i := v]) ks xs) = length xs" for ks
    by (induction ks arbitrary: xs) auto
  then show ?thesis by (simp add: fill_def)
qed

lemma boruvka_init_frame:
  "boruvka_init mc g = (l, g') \<Longrightarrow>
     g' = g\<lparr>update_locked := True, size_arr := fill (size_arr g) (num_nodes g) 1\<rparr> \<and>
     reps l = [0..<num_nodes g] \<and> backed_up l = [] \<and> first_round l"
  by (auto simp: boruvka_init_def Let_def)

lemma restore_in_mem_length:
  "restore_in_mem c ids sns = Some sns' \<Longrightarrow> length sns' = length sns"
  by (induction ids arbitrary: sns) (auto split: option.splits)

lemma restore_loop_length:
  "length (restore_loop ops n sd ids bin sns) = length sns"
  by (induction ids arbitrary: bin sns) (auto split: prod.splits)

lemma cleanup_copy_frame:
  "cleanup_copy ops mc bu c g = Some g' \<Longrightarrow>
   frame g g' \<and> same_dsu g g' \<and> backup_data g' = backup_data g"
  by (auto simp: cleanup_copy_def restore_from_disk_def frame_def same_dsu_def
        restore_loop_length bind_eq_Some_conv
      split: if_splits dest: restore_in_mem_length)

section \<open>\<^verbatim>\<open>boruvka_emulation\<close>\<close>

lemma boruvka_emulation_cases:
  assumes "boruvka_emulation ops mc g = Some (res, g')"
  obtains (throws) e l g1 where
      "boruvka_rounds ops mc (boruvka_init mc g) = Some (Some e, l, g1)"
      "cleanup_copy ops mc (backed_up l) (copy_supernodes l) g1 = Some g'"
      "res = Inl e"
  | (returns) l g1 temp p where
      "boruvka_rounds ops mc (boruvka_init mc g) = Some (None, l, g1)"
      "components_loop [0..<num_nodes g1] (parent g1) [] = Some (temp, p)"
      "cleanup_copy ops mc (backed_up l) (copy_supernodes l) (g1\<lparr>parent := p\<rparr>) = Some g'"
      "res = Inr (map snd temp)"
proof -
  from assms obtain err l g1 where
    r: "boruvka_rounds ops mc (boruvka_init mc g) = Some (err, l, g1)"
    by (auto simp: boruvka_emulation_def bind_eq_Some_conv)
  show thesis
  proof (cases err)
    case (Some e)
    with assms r show ?thesis
      by (intro throws[of e l g1]) (auto simp: boruvka_emulation_def bind_eq_Some_conv)
  next
    case None
    with assms r obtain temp p where
      c: "components_loop [0..<num_nodes g1] (parent g1) [] = Some (temp, p)"
      by (auto simp: boruvka_emulation_def bind_eq_Some_conv)
    with assms r None show ?thesis
      by (intro returns[of l g1 temp p]) (auto simp: boruvka_emulation_def bind_eq_Some_conv)
  qed
qed

lemma boruvka_init_eq:
  "boruvka_init mc g =
     (\<lparr>first_round = True,
       copy_supernodes = (if mc \<and> copy_in_mem g then replicate (num_nodes g) None else []),
       query = replicate (num_nodes g) None, reps = [0..<num_nodes g], backed_up = []\<rparr>,
      g\<lparr>update_locked := True, size_arr := fill (size_arr g) (num_nodes g) 1\<rparr>)"
  by (simp add: boruvka_init_def Let_def)

lemma get_parent_length: "get_parent p x = Some (r, p') \<Longrightarrow> length p' = length p"
  using get_parent_complete[OF get_parent_sound, of p x r p'] by auto

lemma components_loop_length:
  "components_loop vs p temp = Some (temp', p') \<Longrightarrow> length p' = length p"
proof (induction vs arbitrary: p temp)
  case Nil
  then show ?case by simp
next
  case (Cons i vs)
  from Cons.prems obtain r p1 where g: "get_parent p i = Some (r, p1)"
    and c: "components_loop vs p1 (temp_insert r i temp) = Some (temp', p')"
    by (auto simp: bind_eq_Some_conv)
  from Cons.IH[OF c] get_parent_length[OF g] show ?case by simp
qed

lemma get_parent_range: "get_parent p x = Some res \<Longrightarrow> x < length p"
  by (subst (asm) get_parent.simps) (simp split: if_splits)

lemma components_loop_range:
  "components_loop vs p temp = Some res \<Longrightarrow> set vs \<subseteq> {0..<length p}"
proof (induction vs arbitrary: p temp)
  case Nil
  then show ?case by simp
next
  case (Cons i vs)
  from Cons.prems obtain r p1 where g: "get_parent p i = Some (r, p1)"
    and c: "components_loop vs p1 (temp_insert r i temp) = Some res"
    by (auto simp: bind_eq_Some_conv)
  from Cons.IH[OF c] get_parent_length[OF g] get_parent_range[OF g] show ?case by simp
qed

lemma components_loop_frame:
  assumes c: "components_loop vs (parent g) [] = Some (temp, p)"
  shows "frame g (g\<lparr>parent := p\<rparr>)"
proof -
  have "dsu_inv p" if inv: "dsu_inv (parent g)"
  proof -
    have "temp_inv (parent g) {} []" by (simp add: temp_inv_def)
    from components_loop_inv[OF inv components_loop_range[OF c] this] c show ?thesis by auto
  qed
  with components_loop_length[OF c] show ?thesis by (simp add: frame_def)
qed

text \<open>What a call of \<^verbatim>\<open>boruvka_emulation\<close> leaves of the graph.\<close>

lemma boruvka_emulation_frame:
  assumes "boruvka_emulation ops mc g = Some (res, g')"
  shows "frame (g\<lparr>update_locked := True\<rparr>) g'"
proof -
  let ?g0 = "g\<lparr>update_locked := True, size_arr := fill (size_arr g) (num_nodes g) 1\<rparr>"
  have f0: "frame (g\<lparr>update_locked := True\<rparr>) ?g0"
    by (simp add: frame_def length_fill)
  from assms show ?thesis
  proof (cases rule: boruvka_emulation_cases)
    case (throws e l g1)
    from throws(1) have "frame ?g0 g1"
      by (simp add: boruvka_init_eq boruvka_rounds_frame)
    moreover from cleanup_copy_frame[OF throws(2)] have "frame g1 g'" by simp
    ultimately show ?thesis using f0 by (blast intro: frame_trans)
  next
    case (returns l g1 temp p)
    from returns(1) have f1: "frame ?g0 g1"
      by (simp add: boruvka_init_eq boruvka_rounds_frame)
    from cleanup_copy_frame[OF returns(3)] have f2: "frame (g1\<lparr>parent := p\<rparr>) g'" by simp
    from f0 f1 components_loop_frame[OF returns(2)] f2 show ?thesis
      by (blast intro: frame_trans)
  qed
qed

lemma frameD:
  assumes "frame g g'"
  shows "num_nodes g' = num_nodes g" "seed g' = seed g" "update_locked g' = update_locked g"
    "copy_in_mem g' = copy_in_mem g" "workers_paused g' = workers_paused g"
    "num_updates g' = num_updates g" "length (supernodes g') = length (supernodes g)"
    "length (size_arr g') = length (size_arr g)" "length (parent g') = length (parent g)"
    "dsu_inv (parent g) \<Longrightarrow> dsu_inv (parent g')"
  using assms by (simp_all add: frame_def)

section \<open>\<^verbatim>\<open>connected_components\<close>\<close>

lemma reset_fold_prefix:
  assumes "k \<le> length (supernodes g)" "k \<le> length (parent g)" "k \<le> length (size_arr g)"
  shows "fold (reset_step ops) [0..<k] g =
     g\<lparr>supernodes := map (reset_query_state ops) (take k (supernodes g)) @ drop k (supernodes g),
       parent := [0..<k] @ drop k (parent g),
       size_arr := replicate k 1 @ drop k (size_arr g)\<rparr>"
  using assms
proof (induction k)
  case 0
  then show ?case by simp
next
  case (Suc k)
  then have d: "drop k (supernodes g) = supernodes g ! k # drop (Suc k) (supernodes g)"
    "drop k (parent g) = parent g ! k # drop (Suc k) (parent g)"
    "drop k (size_arr g) = size_arr g ! k # drop (Suc k) (size_arr g)"
    by (simp_all add: Cons_nth_drop_Suc)
  from Suc.prems have t: "take (Suc k) (supernodes g) = take k (supernodes g) @ [supernodes g ! k]"
    by (simp add: take_Suc_conv_app_nth)
  from Suc show ?case
    by (simp add: reset_step_def d t list_update_append nth_append replicate_append_same)
qed

lemma reset_fold:
  assumes "length (supernodes g) = k" "length (parent g) = k" "length (size_arr g) = k"
  shows "fold (reset_step ops) [0..<k] g =
     g\<lparr>supernodes := map (reset_query_state ops) (supernodes g),
       parent := [0..<k], size_arr := replicate k 1\<rparr>"
  using reset_fold_prefix[of k g ops] assms by simp

lemma connected_components_resumable:
  assumes "connected_components ops True g = Some (res, g')"
  obtains g1 where
    "boruvka_emulation ops True (g\<lparr>workers_paused := True\<rparr>) = Some (res, g1)"
    "g' = (fold (reset_step ops) [0..<num_nodes g1] g1)\<lparr>update_locked := False, workers_paused := False\<rparr>"
  using assms by (auto simp: connected_components_def Let_def bind_eq_Some_conv)

section \<open>The ingest lock\<close>

lemma batch_update_locked:
  "update_locked g \<Longrightarrow> batch_update ops src edges g = Some (Inl UpdateLockedException)"
  by (simp add: batch_update_def)


lemma connected_components_in_place_locks:
  assumes "connected_components ops False g = Some (res, g')"
  shows "update_locked g'"
proof -
  from assms have "boruvka_emulation ops False (g\<lparr>workers_paused := True\<rparr>) = Some (res, g')"
    by (simp add: connected_components_def)
  from frameD(3)[OF boruvka_emulation_frame[OF this]] show ?thesis by simp
qed

lemma run_call_keeps_lock:
  assumes "run_call ops c g = Some (out, g')" and "update_locked g" and "c \<noteq> Connected_components True"
  shows "update_locked g' \<and> (\<forall>src edges. c = Batch_update src edges \<longrightarrow> out = Thrown UpdateLockedException)"
proof (cases c)
  case (Batch_update src edges)
  with assms show ?thesis by (auto simp: run_call_def batch_update_locked)
next
  case (Write_binary ff)
  with assms show ?thesis by (auto simp: run_call_def Graph_write_binary_def)
next
  case (Connected_components cont)
  with assms have cont: "\<not> cont" by auto
  from assms(1) Connected_components cont obtain res where
    "connected_components ops False g = Some (res, g')"
    by (auto simp: run_call_def split: option.splits sum.splits prod.splits)
  from connected_components_in_place_locks[OF this] Connected_components show ?thesis by simp
qed

lemma run_calls_keep_lock:
  assumes "run_calls ops cs g = Some (outs, g')" and "update_locked g"
    and "Connected_components True \<notin> set cs"
  shows "update_locked g' \<and> length outs = length cs \<and>
         (\<forall>i<length cs. \<forall>src edges. cs ! i = Batch_update src edges \<longrightarrow>
            outs ! i = Thrown UpdateLockedException)"
  using assms
proof (induction cs arbitrary: g outs)
  case Nil
  then show ?case by simp
next
  case (Cons c cs)
  from Cons.prems(1) obtain out g1 outs1 where
    c: "run_call ops c g = Some (out, g1)" and
    cs: "run_calls ops cs g1 = Some (outs1, g')" and o: "outs = out # outs1"
    by (auto simp: bind_eq_Some_conv)
  from Cons.prems(3) have ne: "c \<noteq> Connected_components True" by auto
  note k = run_call_keeps_lock[OF c Cons.prems(2) ne]
  from Cons.prems(3) have "Connected_components True \<notin> set cs" by simp
  from Cons.IH[OF cs _ this] k have ih: "update_locked g'" "length outs1 = length cs"
    "\<forall>i<length cs. \<forall>src edges. cs ! i = Batch_update src edges \<longrightarrow>
            outs1 ! i = Thrown UpdateLockedException" by auto
  have "\<forall>i<length (c # cs). \<forall>src edges. (c # cs) ! i = Batch_update src edges \<longrightarrow>
            outs ! i = Thrown UpdateLockedException"
  proof (intro allI impI)
    fix i src edges assume i: "i < length (c # cs)" and b: "(c # cs) ! i = Batch_update src edges"
    show "outs ! i = Thrown UpdateLockedException"
    proof (cases i)
      case 0
      with b k o show ?thesis by simp
    next
      case (Suc j)
      with i b ih(3) o show ?thesis by simp
    qed
  qed
  with ih o show ?case by simp
qed

lemma resumable_query_state:
  assumes cc: "connected_components ops True g = Some (res, g')"
    and len: "length (supernodes g) = num_nodes g" "length (parent g) = num_nodes g"
      "length (size_arr g) = num_nodes g"
  shows "num_nodes g' = num_nodes g \<and>
         parent g' = [0..<num_nodes g] \<and>
         size_arr g' = replicate (num_nodes g) 1 \<and>
         (\<exists>g1. boruvka_emulation ops True (g\<lparr>workers_paused := True\<rparr>) = Some (res, g1) \<and>
               supernodes g' = map (reset_query_state ops) (supernodes g1)) \<and>
         length (supernodes g') = num_nodes g \<and>
         \<not> update_locked g' \<and> \<not> workers_paused g'"
proof -
  from cc obtain g1 where
    be: "boruvka_emulation ops True (g\<lparr>workers_paused := True\<rparr>) = Some (res, g1)" and
    g': "g' = (fold (reset_step ops) [0..<num_nodes g1] g1)\<lparr>update_locked := False, workers_paused := False\<rparr>"
    by (rule connected_components_resumable)
  note f = frameD[OF boruvka_emulation_frame[OF be]]
  from f len have l1: "length (supernodes g1) = num_nodes g1" "length (parent g1) = num_nodes g1"
    "length (size_arr g1) = num_nodes g1" and n: "num_nodes g1 = num_nodes g"
    by simp_all
  from g' have "g' = g1\<lparr>supernodes := map (reset_query_state ops) (supernodes g1),
       parent := [0..<num_nodes g1], size_arr := replicate (num_nodes g1) 1,
       update_locked := False, workers_paused := False\<rparr>"
    by (simp add: reset_fold[OF l1])
  with be n l1 show ?thesis by auto
qed

section \<open>The snapshot\<close>

lemma plan_step_new_reps:
  assumes "plan_step q i (g, tm, nr) = Some (g', tm', nr')"
  shows "nr' = nr @ (if is_FAIL q i then [i] else [])"
proof (cases "q ! i")
  case None
  with assms show ?thesis by (simp add: plan_step_def)
next
  case (Some a)
  obtain e rc where a: "a = (e, rc)" by (cases a)
  show ?thesis
  proof (cases rc)
    case GOOD
    with assms Some a show ?thesis
      by (auto simp: plan_step_GOOD is_FAIL_def bind_eq_Some_conv Let_def split: if_splits prod.splits)
  next
    case ZERO
    with assms Some a show ?thesis by (auto simp: plan_step_ZERO is_FAIL_def)
  next
    case FAIL
    with assms Some a show ?thesis by (auto simp: plan_step_FAIL is_FAIL_def)
  qed
qed

lemma plan_loop_new_reps:
  "plan_loop q rs (g, tm, nr) = Some (g', tm', nr') \<Longrightarrow> nr' = nr @ filter (is_FAIL q) rs"
proof (induction rs arbitrary: g tm nr)
  case Nil
  then show ?case by simp
next
  case (Cons i rs)
  from Cons.prems obtain g1 tm1 nr1 where
    s: "plan_step q i (g, tm, nr) = Some (g1, tm1, nr1)" and
    l: "plan_loop q rs (g1, tm1, nr1) = Some (g', tm', nr')"
    by (auto simp: bind_eq_Some_conv)
  from plan_step_new_reps[OF s] Cons.IH[OF l] show ?case by simp
qed

lemma supernodes_to_merge_reps:
  assumes "supernodes_to_merge q rs g = Some (tm, nr, g')"
  shows "nr = filter (\<lambda>a. tm ! a = []) (filter (is_FAIL q) rs) @
              filter (\<lambda>a. tm ! a \<noteq> []) [0..<num_nodes g]"
proof -
  from assms obtain nr0 where
    l: "plan_loop q rs (g, replicate (num_nodes g) [], []) = Some (g', tm, nr0)" and
    n: "nr = filter (\<lambda>a. tm ! a = []) nr0 @ filter (\<lambda>a. tm ! a \<noteq> []) [0..<num_nodes g]"
    by (auto simp: supernodes_to_merge_def bind_eq_Some_conv Let_def)
  from plan_loop_new_reps[OF l] n show ?thesis by simp
qed

lemma supernodes_to_merge_reps_ok:
  assumes "supernodes_to_merge q rs g = Some (tm, nr, g')"
    and "distinct rs" and "set rs \<subseteq> {0..<num_nodes g}"
  shows "distinct nr" and "set nr \<subseteq> {0..<num_nodes g}"
  using assms(2,3) unfolding supernodes_to_merge_reps[OF assms(1)]
  by auto

lemma merge_all_other: "i \<noteq> a \<Longrightarrow> fst (merge_all ops a bs sns) ! i = sns ! i"
  by (induction bs arbitrary: sns) (auto split: prod.splits option.splits)

lemma merge_step_eq:
  "merge_step ops tm mc a (c, g, err) =
     ((if mc \<and> copy_in_mem g then c[a := Some (supernodes g ! a)] else c),
      g\<lparr>supernodes := fst (merge_all ops a (tm ! a) (supernodes g))\<rparr>,
      (case snd (merge_all ops a (tm ! a) (supernodes g)) of None \<Rightarrow> err | Some e \<Rightarrow> Some e))"
  by (auto simp: merge_step_def Let_def split: prod.splits option.splits)

lemma merge_fold_copies:
  assumes "fold (merge_step ops tm True) rs (c, g, err) = (c', g', err')"
    and "copy_in_mem g" and "distinct rs" and "set rs \<subseteq> {0..<length c}"
  shows "(\<forall>a\<in>set rs. c' ! a = Some (supernodes g ! a)) \<and>
         (\<forall>i. i \<notin> set rs \<longrightarrow> c' ! i = c ! i \<and> supernodes g' ! i = supernodes g ! i) \<and>
         length c' = length c"
  using assms
proof (induction rs arbitrary: c g err)
  case Nil
  then show ?case by simp
next
  case (Cons a rs)
  let ?c1 = "c[a := Some (supernodes g ! a)]"
  let ?g1 = "g\<lparr>supernodes := fst (merge_all ops a (tm ! a) (supernodes g))\<rparr>"
  let ?e1 = "case snd (merge_all ops a (tm ! a) (supernodes g)) of None \<Rightarrow> err | Some e \<Rightarrow> Some e"
  from Cons.prems(1,2) have f: "fold (merge_step ops tm True) rs (?c1, ?g1, ?e1) = (c', g', err')"
    by (simp add: merge_step_eq)
  from Cons.prems have d: "distinct rs" "a \<notin> set rs" and r: "set rs \<subseteq> {0..<length ?c1}"
    and a: "a < length c" by auto
  from Cons.prems(2) have cm: "copy_in_mem ?g1" by simp
  from Cons.IH[OF f cm d(1) r] have
    ih1: "\<forall>b\<in>set rs. c' ! b = Some (supernodes ?g1 ! b)" and
    ih2: "\<forall>i. i \<notin> set rs \<longrightarrow> c' ! i = ?c1 ! i \<and> supernodes g' ! i = supernodes ?g1 ! i" and
    ih3: "length c' = length c" by auto
  have "c' ! b = Some (supernodes g ! b)" if "b \<in> set (a # rs)" for b
  proof (cases "b = a")
    case True
    with ih2 d(2) a show ?thesis by simp
  next
    case False
    with that ih1 show ?thesis by (simp add: merge_all_other)
  qed
  moreover have "c' ! i = c ! i \<and> supernodes g' ! i = supernodes g ! i" if "i \<notin> set (a # rs)" for i
    using that ih2 by (simp add: merge_all_other)
  ultimately show ?case using ih3 by blast
qed

lemma merge_fold_no_copy:
  assumes "fold (merge_step ops tm mc) rs (c, g, err) = (c', g', err')"
    and "\<not> (mc \<and> copy_in_mem g)"
  shows "c' = c"
  using assms
proof (induction rs arbitrary: g err)
  case Nil
  then show ?case by simp
next
  case (Cons a rs)
  let ?g1 = "g\<lparr>supernodes := fst (merge_all ops a (tm ! a) (supernodes g))\<rparr>"
  from Cons.prems obtain e1 where "fold (merge_step ops tm mc) rs (c, ?g1, e1) = (c', g', err')"
    by (auto simp: merge_step_eq)
  moreover from Cons.prems(2) have "\<not> (mc \<and> copy_in_mem ?g1)" by simp
  ultimately show ?case by (rule Cons.IH)
qed

lemma boruvka_round_later:
  assumes "boruvka_round ops mc (l, g) = Some (err, l', g')" and "\<not> first_round l"
  shows "copy_supernodes l' = copy_supernodes l \<and> backed_up l' = backed_up l \<and>
         backup_data g' = backup_data g \<and> \<not> first_round l'"
  using assms(1)
proof (cases rule: boruvka_round_cases)
  case (sample_throws q sns e)
  with assms(2) show ?thesis by simp
next
  case (merged q sns tm nr g1 c g2 e')
  from merged(3) assms(2) have m: "merge_supernodes ops (copy_supernodes l) nr tm False g1 = (c, g2, e')"
    by simp
  then have "c = copy_supernodes l"
    unfolding merge_supernodes_def by (rule merge_fold_no_copy) simp
  moreover from supernodes_to_merge_frame[OF merged(2)] merge_supernodes_frame[OF m]
  have "backup_data g2 = backup_data g" by simp
  ultimately show ?thesis using merged(5,6) assms(2) by simp
qed

lemma boruvka_rounds_later_aux:
  "boruvka_rounds ops mc st = Some res \<Longrightarrow> \<not> first_round (fst st) \<Longrightarrow>
   copy_supernodes (fst (snd res)) = copy_supernodes (fst st) \<and>
   backed_up (fst (snd res)) = backed_up (fst st) \<and>
   backup_data (snd (snd res)) = backup_data (snd st)"
proof (induction rule: boruvka_rounds.raw_induct[rotated 1, consumes 1])
  case (1 rounds ops mc st res)
  obtain l g where st: "st = (l, g)" by (cases st)
  from "1"(2) obtain err l1 g1 where
    r: "boruvka_round ops mc (l, g) = Some (err, l1, g1)" and
    c: "(if err = None \<and> modified g1 then rounds ops mc (l1, g1) else Some (err, l1, g1)) = Some res"
    by (auto simp: st bind_eq_Some_conv)
  from "1"(3) st have nf: "\<not> first_round l" by simp
  note k = boruvka_round_later[OF r nf]
  show ?case
  proof (cases "err = None \<and> modified g1")
    case True
    with c have "rounds ops mc (l1, g1) = Some res" by simp
    from "1"(1)[OF this] k show ?thesis by (simp add: st)
  next
    case False
    with c k show ?thesis by (auto simp: st)
  qed
qed

lemma boruvka_rounds_later:
  "boruvka_rounds ops mc (l, g) = Some (err, l', g') \<Longrightarrow> \<not> first_round l \<Longrightarrow>
   copy_supernodes l' = copy_supernodes l \<and> backed_up l' = backed_up l \<and>
   backup_data g' = backup_data g"
  by (drule boruvka_rounds_later_aux) simp_all


lemma restore_in_mem_effect:
  assumes "restore_in_mem c ids sns = Some sns'"
  shows "(\<forall>i\<in>set ids. i < length sns \<longrightarrow> c ! i = Some (sns' ! i)) \<and>
         (\<forall>i. i \<notin> set ids \<longrightarrow> sns' ! i = sns ! i) \<and> length sns' = length sns"
  using assms
proof (induction ids arbitrary: sns)
  case Nil
  then show ?case by simp
next
  case (Cons a ids)
  from Cons.prems obtain x where x: "c ! a = Some x" and
    r: "restore_in_mem c ids (sns[a := x]) = Some sns'"
    by (auto split: option.splits)
  from Cons.IH[OF r] have
    ih1: "\<forall>i\<in>set ids. i < length sns \<longrightarrow> c ! i = Some (sns' ! i)" and
    ih2: "\<forall>i. i \<notin> set ids \<longrightarrow> sns' ! i = sns[a := x] ! i" and
    ih3: "length sns' = length sns" by auto
  have "c ! a = Some (sns' ! a)" if "a < length sns"
  proof (cases "a \<in> set ids")
    case True
    with ih1 that show ?thesis by simp
  next
    case False
    with ih2 that x show ?thesis by simp
  qed
  with ih1 ih2 ih3 show ?case by auto
qed


lemma restore_loop_other:
  "i \<notin> set ids \<Longrightarrow> restore_loop ops nn sd ids bin sns ! i = sns ! i"
  by (induction ids arbitrary: bin sns) (auto split: prod.splits)

text \<open>The snapshot that the first round takes, and that no later round touches.\<close>

lemma first_round_snapshot:
  assumes rounds: "boruvka_rounds ops True (l0, g0) = Some (err, l, g')"
    and l0: "first_round l0" "reps l0 = [0..<num_nodes g0]" "backed_up l0 = []"
      "copy_supernodes l0 = (if copy_in_mem g0 then replicate (num_nodes g0) None else [])"
  shows "case sample_supernodes ops (query l0) (reps l0) (supernodes g0) of
           (q, sns, Some e) \<Rightarrow> backed_up l = [] \<and> err = Some e
         | (q, sns, None) \<Rightarrow>
             (case supernodes_to_merge q (reps l0) (g0\<lparr>modified := False, supernodes := sns\<rparr>) of
                None \<Rightarrow> False
              | Some (to_merge, new_reps, g1) \<Rightarrow>
                  backed_up l = new_reps \<and> distinct new_reps \<and>
                  set new_reps \<subseteq> {0..<num_nodes g0} \<and>
                  (if copy_in_mem g0
                   then copy_supernodes l =
                          map (\<lambda>i. if i \<in> set new_reps then Some (sns ! i) else None)
                            [0..<num_nodes g0]
                   else backup_data g' =
                          concat (map (\<lambda>i. Supernode_write_binary ops (sns ! i)) new_reps)))"
proof -
  from rounds obtain err1 l1 g1 where
    r: "boruvka_round ops True (l0, g0) = Some (err1, l1, g1)" and
    c: "(if err1 = None \<and> modified g1 then boruvka_rounds ops True (l1, g1) else Some (err1, l1, g1))
         = Some (err, l, g')"
    by (subst (asm) boruvka_rounds.simps) (auto simp: bind_eq_Some_conv)
  from r show ?thesis
  proof (cases rule: boruvka_round_cases)
    case (sample_throws q sns e)
    with c have "err = Some e" "l = l0\<lparr>query := q\<rparr>" by auto
    with sample_throws(1) l0 show ?thesis by simp
  next
    case (merged q sns tm nr g2 cp g3 e')
    let ?gs = "g0\<lparr>modified := False, supernodes := sns\<rparr>"
    let ?gb = "if \<not> copy_in_mem g2 then backup_to_disk ops nr g2 else g2"
    note pf = supernodes_to_merge_frame[OF merged(2)]
    from frameD[OF conjunct1[OF pf]] have cm2: "copy_in_mem g2 = copy_in_mem g0"
      and n2: "num_nodes g2 = num_nodes g0" by simp_all
    from pf have s2: "supernodes g2 = sns" by simp
    from supernodes_to_merge_reps_ok[OF merged(2)] l0(2)
    have nr: "distinct nr" "set nr \<subseteq> {0..<num_nodes g0}" by simp_all
    from merged(3) l0(1) have m: "merge_supernodes ops (copy_supernodes l0) nr tm True ?gb = (cp, g3, e')"
      by simp
    note mf = merge_supernodes_frame[OF m]
    have l1: "backed_up l1 = nr" "\<not> first_round l1 \<or> e' \<noteq> None" "copy_supernodes l1 = cp"
      using merged(6) l0(1) by auto
    have snap: "if copy_in_mem g0
                then cp = map (\<lambda>i. if i \<in> set nr then Some (sns ! i) else None) [0..<num_nodes g0]
                else backup_data g3 = concat (map (\<lambda>i. Supernode_write_binary ops (sns ! i)) nr)"
    proof (cases "copy_in_mem g0")
      case True
      with cm2 have gb: "?gb = g2" by simp
      from m have f: "fold (merge_step ops tm True) nr (replicate (num_nodes g0) None, g2, None) = (cp, g3, e')"
        by (simp add: merge_supernodes_def gb l0(4) True)
      from cm2 True have "copy_in_mem g2" by simp
      from merge_fold_copies[OF f this nr(1)] nr(2) s2
      have a: "\<forall>a\<in>set nr. cp ! a = Some (sns ! a)"
        and b: "\<forall>i. i \<notin> set nr \<longrightarrow> cp ! i = replicate (num_nodes g0) None ! i"
        and len: "length cp = num_nodes g0" by auto
      have "cp = map (\<lambda>i. if i \<in> set nr then Some (sns ! i) else None) [0..<num_nodes g0]"
        using a b len by (intro nth_equalityI) auto
      with True show ?thesis by simp
    next
      case False
      with cm2 have gb: "?gb = backup_to_disk ops nr g2" by simp
      from mf have "backup_data g3 = backup_data ?gb" by simp
      with gb s2 have "backup_data g3 = concat (map (\<lambda>i. Supernode_write_binary ops (sns ! i)) nr)"
        by (simp add: backup_to_disk_def)
      with False show ?thesis by simp
    qed
    have fin: "backed_up l = nr \<and> copy_supernodes l = cp \<and> backup_data g' = backup_data g3"
    proof (cases "err1 = None \<and> modified g1")
      case True
      with c have rest: "boruvka_rounds ops True (l1, g1) = Some (err, l, g')" by simp
      from True merged(4) l1(2) have "\<not> first_round l1" by simp
      from boruvka_rounds_later[OF rest this] l1 merged(5) show ?thesis by simp
    next
      case False
      with c l1 merged(5) show ?thesis by auto
    qed
    from snap fin nr merged(1,2) show ?thesis by (simp split: if_splits)
  qed
qed

lemma boruvka_emulation_cleanup:
  assumes "boruvka_emulation ops mc g = Some (res, g')"
  obtains err l g1 where
    "boruvka_rounds ops mc (boruvka_init mc g) = Some (err, l, g1)"
    "case res of Inl e \<Rightarrow> err = Some e | Inr retval \<Rightarrow> err = None"
    "cleanup_copy ops mc (backed_up l) (copy_supernodes l) (g1\<lparr>parent := parent g'\<rparr>) = Some g'"
  using assms
proof (cases rule: boruvka_emulation_cases)
  case (throws e l g1)
  from cleanup_copy_frame[OF throws(2)] have "g1\<lparr>parent := parent g'\<rparr> = g1"
    by (simp add: same_dsu_def)
  with throws show ?thesis by (intro that[of "Some e" l g1]) simp_all
next
  case (returns l g1 temp p)
  from cleanup_copy_frame[OF returns(3)] have "parent g' = p" by (simp add: same_dsu_def)
  with returns show ?thesis by (intro that[of None l g1]) simp_all
qed

lemma supernodes_of_update:
  "g1\<lparr>parent := p, supernodes := y\<rparr> = g' \<Longrightarrow> supernodes g' = y"
  by auto

section \<open>Independence of the partition from the snapshot\<close>





















section \<open>Termination of the rounds\<close>



































section \<open>The claims\<close>

text \<open>
  C1.  The list that \<^verbatim>\<open>connected_components\<close> returns (the one that its call of
  \<^verbatim>\<open>boruvka_emulation\<close> returns) is a partition of the vertices \<open>0, ..., num_nodes - 1\<close>:
  the union of its sets is the vertex set, two sets at different positions are disjoint,
  no set is empty, and every set is the set of the vertices with one and the same root
  \<^verbatim>\<open>get_parent(v)\<close> in the disjoint-set forest that \<^verbatim>\<open>boruvka_emulation\<close> leaves.  The graph
  is one whose parent array has \<^verbatim>\<open>num_nodes\<close> entries and lets \<^verbatim>\<open>get_parent\<close> return for
  every vertex, as the constructors and every query leave it.
\<close>

theorem C1_components_partition:
  assumes cc: "connected_components ops cont g = Some (Inr retval, g')"
    and len: "length (parent g) = num_nodes g" and inv: "dsu_inv (parent g)"
  shows "\<exists>g1. boruvka_emulation ops cont (g\<lparr>workers_paused := True\<rparr>) = Some (Inr retval, g1) \<and>
           \<Union> (set retval) = {0..<num_nodes g} \<and>
           (\<forall>i<length retval. \<forall>j<length retval. i \<noteq> j \<longrightarrow> retval ! i \<inter> retval ! j = {}) \<and>
           (\<forall>S\<in>set retval. S \<noteq> {} \<and>
              (\<exists>r. S = {v. v < num_nodes g \<and> find_root (parent g1) v = Some r}))"
proof -
  let ?gp = "g\<lparr>workers_paused := True\<rparr>"
  from cc obtain g1 where be: "boruvka_emulation ops cont ?gp = Some (Inr retval, g1)"
    by (cases cont) (auto simp: connected_components_def Let_def bind_eq_Some_conv)
  let ?N = "num_nodes g"
  from be obtain l g2 temp p where
    r: "boruvka_rounds ops cont (boruvka_init cont ?gp) = Some (None, l, g2)" and
    c: "components_loop [0..<num_nodes g2] (parent g2) [] = Some (temp, p)" and
    cl: "cleanup_copy ops cont (backed_up l) (copy_supernodes l) (g2\<lparr>parent := p\<rparr>) = Some g1" and
    rv: "retval = map snd temp"
    by (cases rule: boruvka_emulation_cases) auto
  from r have f: "frame (?gp\<lparr>update_locked := True, size_arr := fill (size_arr ?gp) (num_nodes ?gp) 1\<rparr>) g2"
    by (simp add: boruvka_init_eq boruvka_rounds_frame)
  from frameD[OF f] len inv have N2: "num_nodes g2 = ?N" and len2: "length (parent g2) = ?N"
    and inv2: "dsu_inv (parent g2)" by simp_all
  have "temp_inv (parent g2) {} []" by (simp add: temp_inv_def)
  from components_loop_inv[OF inv2 _ this, of "[0..<?N]"] c N2 len2
  have roots: "\<And>y s. root_of p y s \<longleftrightarrow> root_of (parent g2) y s"
    and ti: "temp_inv (parent g2) {0..<?N} temp" by auto
  from cleanup_copy_frame[OF cl] have p1: "parent g1 = p" by (simp add: same_dsu_def)
  have tot: "\<forall>v\<in>{0..<?N}. \<exists>r. root_of (parent g2) v r"
    using inv2 len2 by (simp add: dsu_inv_iff)
  note part = temp_inv_partition[OF ti tot]
  have cls: "{v \<in> {0..<?N}. root_of (parent g2) v r} = {v. v < ?N \<and> find_root (parent g1) v = Some r}" for r
    by (auto simp: find_root_iff p1 roots)
  from part(3) have "\<forall>S\<in>set retval. S \<noteq> {} \<and>
              (\<exists>r. S = {v. v < ?N \<and> find_root (parent g1) v = Some r})"
    unfolding rv cls by simp
  moreover from part(2) have "\<forall>i<length retval. \<forall>j<length retval. i \<noteq> j \<longrightarrow> retval ! i \<inter> retval ! j = {}"
    by (simp add: rv)
  ultimately show ?thesis using be part(1) rv by blast
qed

theorem C1_witness:
  "\<exists>g'. connected_components (exact_ops 3) False
           (update_edge 3 (0, 1) (new_graph 3 True 4)) = Some (Inr [{0, 1}, {2}, {3}], g') \<and>
        \<Union> (set [{0, 1}, {2}, {3::nat}]) = {0..<4}"
proof -
  let ?g = "update_edge 3 (0, 1) (new_graph 3 True 4)"
  have "map_option fst (connected_components (exact_ops 3) False ?g) = Some (Inr [{0,1},{2},{3}])"
    by code_simp
  then obtain g' where cc: "connected_components (exact_ops 3) False ?g = Some (Inr [{0, 1}, {2}, {3}], g')"
    by auto
  have len: "length (parent ?g) = num_nodes ?g" by code_simp
  have inv: "dsu_inv (parent ?g)" by code_simp
  have n: "num_nodes ?g = 4" by code_simp
  from C1_components_partition[OF cc len inv] cc n show ?thesis by auto
qed



text \<open>
  C3 on the code.  Three vertices.  Vertex 0 fails and is queued for retry; vertex 1
  samples the edge \<open>(1, 2)\<close> and becomes the parent of 2; vertex 2 samples the edge
  \<open>(0, 2)\<close>, and union by size makes 1 the parent of 0.  The filter looks at
  \<^verbatim>\<open>to_merge[0]\<close>, which is empty (the pending merges of the root of 0 stand in
  \<^verbatim>\<open>to_merge[1]\<close>), and keeps 0: the new representative list is \<open>[0, 1]\<close> while
  \<^verbatim>\<open>parent[0]\<close> is 1.
\<close>

theorem C3_retry_of_merged_vertex_kept:
  "map_option (\<lambda>(to_merge, new_reps, g). (to_merge, new_reps, parent g))
     (supernodes_to_merge [Some ((0, 0), FAIL), Some ((1, 2), GOOD), Some ((0, 2), GOOD)]
        [0, 1, 2] (new_graph 1 True 3))
   = Some ([[], [2, 0], []], [0, 1], [1, 1, 1])"
  by code_simp

text \<open>
  C4 as the code has it.  On a query with \<^verbatim>\<open>make_copy\<close>, the list \<^verbatim>\<open>backed_up\<close> is the
  representative list as the first call of \<^verbatim>\<open>supernodes_to_merge\<close> rewrites it (the
  retried representatives, then the merge targets), not the list \<open>0, ..., num_nodes - 1\<close>
  that the query starts from; it is empty when the first sampling throws.  The snapshot
  holds exactly the supernodes of that list, as the first sampling left them and before
  any merge: in memory, \<^verbatim>\<open>copy_supernodes[i]\<close> is the copy for \<open>i\<close> in the list and null
  elsewhere; on disk, the file holds their records in the order of the list.  No later
  round changes the list or the snapshot, and \<^verbatim>\<open>cleanup_copy\<close> restores from that same
  list: it leaves every other supernode as the rounds left it.
\<close>

theorem C4_snapshot_is_first_plan:
  assumes be: "boruvka_emulation ops True g = Some (res, g')"
    and len: "length (supernodes g) = num_nodes g"
  shows "\<exists>err l g1.
           boruvka_rounds ops True (boruvka_init True g) = Some (err, l, g1) \<and>
           cleanup_copy ops True (backed_up l) (copy_supernodes l) (g1\<lparr>parent := parent g'\<rparr>)
             = Some g' \<and>
           (\<forall>i. i \<notin> set (backed_up l) \<longrightarrow> supernodes g' ! i = supernodes g1 ! i) \<and>
           (case sample_supernodes ops (replicate (num_nodes g) None) [0..<num_nodes g] (supernodes g) of
              (q, sns, Some e) \<Rightarrow> backed_up l = []
            | (q, sns, None) \<Rightarrow>
                (case supernodes_to_merge q [0..<num_nodes g]
                        ((snd (boruvka_init True g))\<lparr>modified := False, supernodes := sns\<rparr>) of
                   None \<Rightarrow> False
                 | Some (to_merge, new_reps, g2) \<Rightarrow>
                     backed_up l = new_reps \<and>
                     (if copy_in_mem g
                      then copy_supernodes l =
                             map (\<lambda>i. if i \<in> set new_reps then Some (sns ! i) else None)
                               [0..<num_nodes g] \<and>
                           (\<forall>i\<in>set new_reps. supernodes g' ! i = sns ! i)
                      else backup_data g1 =
                             concat (map (\<lambda>i. Supernode_write_binary ops (sns ! i)) new_reps) \<and>
                           supernodes g' =
                             restore_loop ops (num_nodes g) (seed g) new_reps (backup_data g1)
                               (supernodes g1))))"
proof -
  obtain l0 g0 where i0: "boruvka_init True g = (l0, g0)" by (cases "boruvka_init True g")
  then have l0: "first_round l0" "reps l0 = [0..<num_nodes g0]" "backed_up l0 = []"
    "copy_supernodes l0 = (if copy_in_mem g0 then replicate (num_nodes g0) None else [])"
    and q0: "query l0 = replicate (num_nodes g) None"
    and g0: "num_nodes g0 = num_nodes g" "supernodes g0 = supernodes g" "copy_in_mem g0 = copy_in_mem g"
      "seed g0 = seed g"
    by (auto simp: boruvka_init_eq)
  from be obtain err l g1 where
    r: "boruvka_rounds ops True (boruvka_init True g) = Some (err, l, g1)" and
    c: "cleanup_copy ops True (backed_up l) (copy_supernodes l) (g1\<lparr>parent := parent g'\<rparr>) = Some g'"
    by (rule boruvka_emulation_cleanup)
  from r i0 have r0: "boruvka_rounds ops True (l0, g0) = Some (err, l, g1)" by simp
  note f = frameD[OF boruvka_rounds_frame[OF r0]]
  from f g0 len have cm: "copy_in_mem g1 = copy_in_mem g" and n1: "num_nodes g1 = num_nodes g"
    and sd: "seed g1 = seed g" and ln: "length (supernodes g1) = num_nodes g" by simp_all
  have mem: "restore_in_mem (copy_supernodes l) (backed_up l) (supernodes g1) = Some (supernodes g')"
    if "copy_in_mem g"
  proof -
    from c that cm obtain y where
      y: "restore_in_mem (copy_supernodes l) (backed_up l) (supernodes g1) = Some y" and
      g': "g' = g1\<lparr>parent := parent g', supernodes := y\<rparr>"
      by (auto simp: cleanup_copy_def bind_eq_Some_conv)
    from g'[symmetric] have "supernodes g' = y" by (rule supernodes_of_update)
    with y show ?thesis by simp
  qed
  have disk: "supernodes g' =
      restore_loop ops (num_nodes g) (seed g) (backed_up l) (backup_data g1) (supernodes g1)"
    if "\<not> copy_in_mem g"
  proof -
    from c that cm n1 sd have "g1\<lparr>parent := parent g', supernodes :=
        restore_loop ops (num_nodes g) (seed g) (backed_up l) (backup_data g1) (supernodes g1)\<rparr> = g'"
      by (auto simp: cleanup_copy_def restore_from_disk_def)
    then show ?thesis by (rule supernodes_of_update)
  qed
  have other: "supernodes g' ! i = supernodes g1 ! i" if "i \<notin> set (backed_up l)" for i
  proof (cases "copy_in_mem g")
    case True
    from restore_in_mem_effect[OF mem[OF True]] that show ?thesis by simp
  next
    case False
    from disk[OF False] that show ?thesis by (simp add: restore_loop_other)
  qed
  note s = first_round_snapshot[OF r0 l0]
  have "case sample_supernodes ops (replicate (num_nodes g) None) [0..<num_nodes g] (supernodes g) of
              (q, sns, Some e) \<Rightarrow> backed_up l = []
            | (q, sns, None) \<Rightarrow>
                (case supernodes_to_merge q [0..<num_nodes g]
                        (g0\<lparr>modified := False, supernodes := sns\<rparr>) of
                   None \<Rightarrow> False
                 | Some (to_merge, new_reps, g2) \<Rightarrow>
                     backed_up l = new_reps \<and>
                     (if copy_in_mem g
                      then copy_supernodes l =
                             map (\<lambda>i. if i \<in> set new_reps then Some (sns ! i) else None)
                               [0..<num_nodes g] \<and>
                           (\<forall>i\<in>set new_reps. supernodes g' ! i = sns ! i)
                      else backup_data g1 =
                             concat (map (\<lambda>i. Supernode_write_binary ops (sns ! i)) new_reps) \<and>
                           supernodes g' =
                             restore_loop ops (num_nodes g) (seed g) new_reps (backup_data g1)
                               (supernodes g1)))"
  proof -
    obtain q sns e0 where sm: "sample_supernodes ops (replicate (num_nodes g) None) [0..<num_nodes g] (supernodes g) = (q, sns, e0)"
      by (cases "sample_supernodes ops (replicate (num_nodes g) None) [0..<num_nodes g] (supernodes g)")
    show ?thesis
    proof (cases e0)
      case (Some e)
      with s sm show ?thesis by (simp add: l0 q0 g0)
    next
      case None
      with s sm obtain tm nr g2 where
        p: "supernodes_to_merge q [0..<num_nodes g] (g0\<lparr>modified := False, supernodes := sns\<rparr>) = Some (tm, nr, g2)"
        and b: "backed_up l = nr" and nr: "distinct nr" "set nr \<subseteq> {0..<num_nodes g}"
        and sn: "if copy_in_mem g
                   then copy_supernodes l =
                          map (\<lambda>i. if i \<in> set nr then Some (sns ! i) else None)
                            [0..<num_nodes g]
                   else backup_data g1 =
                          concat (map (\<lambda>i. Supernode_write_binary ops (sns ! i)) nr)"
        by (auto simp: l0 q0 g0 split: option.splits)
      have "\<forall>i\<in>set nr. supernodes g' ! i = sns ! i" if cmg: "copy_in_mem g"
      proof
        fix i assume i: "i \<in> set nr"
        with nr ln have il: "i < length (supernodes g1)" "i < num_nodes g" by auto
        from restore_in_mem_effect[OF mem[OF cmg]] b i il
        have "copy_supernodes l ! i = Some (supernodes g' ! i)" by simp
        moreover from sn cmg i il have "copy_supernodes l ! i = Some (sns ! i)" by simp
        ultimately show "supernodes g' ! i = sns ! i" by simp
      qed
      with sm None p b sn disk show ?thesis by (simp split: if_splits)
    qed
  qed
  with r c other i0 show ?thesis by auto
qed


theorem C4_witness:
  "\<exists>g' err l g1.
     boruvka_emulation (exact_ops 3) True (update_edge 3 (0, 1) (new_graph 3 True 3))
       = Some (Inr [{0, 1}, {2}], g') \<and>
     boruvka_rounds (exact_ops 3) True
        (boruvka_init True (update_edge 3 (0, 1) (new_graph 3 True 3))) = Some (err, l, g1) \<and>
     backed_up l = [0] \<and>
     cleanup_copy (exact_ops 3) True (backed_up l) (copy_supernodes l) (g1\<lparr>parent := parent g'\<rparr>)
       = Some g'"
proof -
  define g where "g = update_edge 3 (0, 1) (new_graph 3 True 3)"
  have "map_option fst (boruvka_emulation (exact_ops 3) True g) = Some (Inr [{0, 1}, {2}])"
    unfolding g_def by code_simp
  then obtain g' where be: "boruvka_emulation (exact_ops 3) True g = Some (Inr [{0, 1}, {2}], g')"
    by auto
  have len: "length (supernodes g) = num_nodes g" unfolding g_def by code_simp
  have b: "map_option (\<lambda>(err, l, g1). backed_up l)
             (boruvka_rounds (exact_ops 3) True (boruvka_init True g)) = Some [0]"
    unfolding g_def by code_simp
  from C4_snapshot_is_first_plan[OF be len] obtain err l g1 where
    r: "boruvka_rounds (exact_ops 3) True (boruvka_init True g) = Some (err, l, g1)" and
    c: "cleanup_copy (exact_ops 3) True (backed_up l) (copy_supernodes l) (g1\<lparr>parent := parent g'\<rparr>)
         = Some g'"
    by blast
  from b r have "backed_up l = [0]" by simp
  with be r c show ?thesis unfolding g_def by blast
qed

theorem C4_counterexample:
  "(reps (fst (boruvka_init True (update_edge 3 (0, 1) (new_graph 3 True 3)))),
    map_option (\<lambda>(err, l, g1). (backed_up l, map (\<lambda>c. c \<noteq> None) (copy_supernodes l)))
      (boruvka_rounds (exact_ops 3) True
         (boruvka_init True (update_edge 3 (0, 1) (new_graph 3 True 3)))))
   = ([0, 1, 2], Some ([0], [True, False, False]))"
  by code_simp












text \<open>
  C9 as the code has it.  When a call of \<^verbatim>\<open>connected_components\<close> without \<^verbatim>\<open>cont\<close>
  returns, \<^verbatim>\<open>update_locked\<close> is true, and it stays true through every later sequence of
  calls of \<^verbatim>\<open>batch_update\<close>, \<^verbatim>\<open>write_binary\<close> and \<^verbatim>\<open>connected_components\<close> without
  \<^verbatim>\<open>cont\<close>: every \<^verbatim>\<open>batch_update\<close> among them throws \<^verbatim>\<open>UpdateLockedException\<close>.  Only a
  later call of \<^verbatim>\<open>connected_components\<close> with \<^verbatim>\<open>cont\<close> releases the lock.
\<close>

theorem C9_lock_kept_until_resumable_query:
  assumes "connected_components ops False g = Some (res, g1)"
    and "run_calls ops cs g1 = Some (outs, g2)"
    and "Connected_components True \<notin> set cs"
  shows "update_locked g1 \<and> update_locked g2 \<and> length outs = length cs \<and>
         (\<forall>i<length cs. \<forall>src edges. cs ! i = Batch_update src edges \<longrightarrow>
            outs ! i = Thrown UpdateLockedException)"
  using connected_components_in_place_locks[OF assms(1)]
    run_calls_keep_lock[OF assms(2) connected_components_in_place_locks[OF assms(1)] assms(3)]
  by simp

theorem C9_witness:
  "\<exists>g1 g2. connected_components (exact_ops 3) False (update_edge 3 (0, 1) (new_graph 3 True 2))
            = Some (Inr [{0, 1}], g1) \<and>
     run_calls (exact_ops 3) [Batch_update 0 [1], Write_binary 1, Connected_components False] g1
            = Some ([Thrown UpdateLockedException,
                     Written (fst (Graph_write_binary (exact_ops 3) 1 g1)),
                     Components [{0, 1}]], g2) \<and>
     update_locked g1 \<and> update_locked g2"
proof -
  let ?g = "update_edge 3 (0, 1) (new_graph 3 True 2)"
  let ?cs = "[Batch_update 0 [1], Write_binary 1, Connected_components False]"
  have "map_option fst (connected_components (exact_ops 3) False ?g) = Some (Inr [{0, 1}])"
    by code_simp
  then obtain g1 where cc: "connected_components (exact_ops 3) False ?g = Some (Inr [{0, 1}], g1)"
    by auto
  have "map_option fst (do { (r, g1) \<leftarrow> connected_components (exact_ops 3) False ?g;
          (outs, g2) \<leftarrow> run_calls (exact_ops 3) ?cs g1;
          Some (outs = [Thrown UpdateLockedException,
                     Written (fst (Graph_write_binary (exact_ops 3) 1 g1)),
                     Components [{0, 1}]], g2) }) = Some True"
    by code_simp
  with cc obtain g2 where rc: "run_calls (exact_ops 3) ?cs g1 = Some ([Thrown UpdateLockedException,
                     Written (fst (Graph_write_binary (exact_ops 3) 1 g1)),
                     Components [{0, 1}]], g2)"
    by (auto simp: bind_eq_Some_conv)
  have "Connected_components True \<notin> set ?cs" by simp
  from C9_lock_kept_until_resumable_query[OF cc rc this] cc rc show ?thesis by blast
qed

theorem C9_counterexample:
  "(do {
      (r1, g1) \<leftarrow> connected_components (exact_ops 3) False (update_edge 3 (0, 1) (new_graph 3 True 2));
      (r2, g2) \<leftarrow> connected_components (exact_ops 3) True g1;
      u \<leftarrow> batch_update (exact_ops 3) 0 [1] g2;
      Some (update_locked g1, update_locked g2, u = Inl UpdateLockedException)
    }) = Some (True, False, False)"
  by code_simp

text \<open>
  C10.  A call of \<^verbatim>\<open>connected_components\<close> with \<^verbatim>\<open>cont\<close> set, whether it returns a
  partition or rethrows an exception (\<open>res\<close> is either), leaves the graph re-initialised:
  \<^verbatim>\<open>parent[i] == i\<close> and \<^verbatim>\<open>size[i] == 1\<close> for every vertex, every supernode is the
  result of \<^verbatim>\<open>reset_query_state\<close> on the supernode that \<^verbatim>\<open>boruvka_emulation\<close> left,
  \<^verbatim>\<open>update_locked\<close> is false and the workers are not paused.  The three arrays of the
  graph have \<^verbatim>\<open>num_nodes\<close> entries.
\<close>

theorem C10_resumable_query_reinitialises:
  assumes cc: "connected_components ops True g = Some (res, g')"
    and len: "length (supernodes g) = num_nodes g" "length (parent g) = num_nodes g"
      "length (size_arr g) = num_nodes g"
  shows "num_nodes g' = num_nodes g \<and>
         parent g' = [0..<num_nodes g] \<and>
         size_arr g' = replicate (num_nodes g) 1 \<and>
         (\<exists>g1. boruvka_emulation ops True (g\<lparr>workers_paused := True\<rparr>) = Some (res, g1) \<and>
               supernodes g' = map (reset_query_state ops) (supernodes g1)) \<and>
         length (supernodes g') = num_nodes g \<and>
         \<not> update_locked g' \<and> \<not> workers_paused g'"
  using assms by (rule resumable_query_state)

theorem C10_witness:
  "\<exists>g'. connected_components (exact_ops 3) True (update_edge 3 (0, 1) (new_graph 3 True 2))
          = Some (Inr [{0, 1}], g') \<and>
        parent g' = [0, 1] \<and> size_arr g' = [1, 1] \<and> \<not> update_locked g' \<and> \<not> workers_paused g'"
proof -
  let ?g = "update_edge 3 (0, 1) (new_graph 3 True 2)"
  have "map_option fst (connected_components (exact_ops 3) True ?g) = Some (Inr [{0, 1}])"
    by code_simp
  then obtain g' where cc: "connected_components (exact_ops 3) True ?g = Some (Inr [{0, 1}], g')"
    by auto
  have len: "length (supernodes ?g) = num_nodes ?g" "length (parent ?g) = num_nodes ?g"
    "length (size_arr ?g) = num_nodes ?g" by code_simp+
  have n: "num_nodes ?g = 2" by code_simp
  from C10_resumable_query_reinitialises[OF cc len] cc n show ?thesis
    by (auto simp: numeral_2_eq_2)
qed

end
